theory Spec2Isabelle
  imports Complex_Main "HOL-Library.Word" "HOL-Library.Signed_Division" "HOL-Library.AList"
begin

section \<open>The telemetry store (package storage)\<close>

subsection \<open>Base types\<close>

text \<open>
  \<^item> \<open>time.Time\<close> is a count of nanoseconds since a fixed epoch; \<open>time.Now()\<close> is an
    argument \<open>now\<close> of every operation that reads the clock.
  \<^item> \<open>time.Duration\<close> is an \<open>int64\<close> count of nanoseconds: an \<open>int\<close>, with the
    two's-complement wrap-around \<open>int64\<close> written out where the code adds durations.
  \<^item> \<open>uint64\<close> is a 64-bit word: subtraction wraps.
  \<^item> \<open>float64\<close> is an IEEE 754 double: a rational number, with every conversion and
    operation rounded to 53 bits of significand as written out below.
  \<^item> Go's \<open>int\<close> (the sample counters) is an unbounded \<open>int\<close>: a counter is incremented
    once per call and cannot reach the machine bound.
\<close>

type_synonym time = int
type_synonym duration = int
type_synonym uint64 = "64 word"
type_synonym float64 = rat

definition int64 :: "int \<Rightarrow> int" where
  "int64 x = (x + 2 ^ 63) mod 2 ^ 64 - 2 ^ 63"

definition Second :: duration where
  "Second = 1000000000"

definition Minute :: duration where
  "Minute = 60 * Second"

definition MaxHistoryPoints :: nat where
  "MaxHistoryPoints = 100"

subsection \<open>Double-precision arithmetic\<close>

text \<open>
  A finite \<open>float64\<close> is the rational number it denotes. A conversion from an integer
  and each of the operations \<open>+\<close>, \<open>*\<close>, \<open>/\<close> of Go gives the exact result rounded to the
  nearest number with a significand of 53 bits, a tie going to the even significand
  (IEEE 754 binary64, round to nearest even). \<open>round64\<close> is that rounding:
  \<open>bitlen n\<close> is the number of binary digits of \<open>n\<close>, \<open>ilog2 x\<close> the exponent of the leading
  bit of a positive \<open>x\<close>, so that \<open>x / pow2 (ilog2 x - 52)\<close> lies between \<open>2^52\<close> and \<open>2^53\<close>
  and is rounded to an integer there by \<open>roundEven\<close>. The range of the exponent is not
  modelled: the numbers of this program (counters below \<open>2^64\<close>, seconds of an \<open>int64\<close> of
  nanoseconds, and their quotients) are far inside it. Infinities and NaN are not
  modelled either: the program divides by a \<open>timeDiff\<close> that it has tested to be positive
  and by a \<open>TotalPings\<close> that it has just incremented, which is at least 1 in every Store
  built by the operations.
\<close>

fun bitlen :: "nat \<Rightarrow> nat" where
  "bitlen n = (if n = 0 then 0 else Suc (bitlen (n div 2)))"

definition pow2 :: "int \<Rightarrow> rat" where
  "pow2 e = (if 0 \<le> e then 2 ^ nat e else 1 / 2 ^ nat (- e))"

definition ilog2 :: "rat \<Rightarrow> int" where
  "ilog2 x =
     (let c = (if 1 \<le> x then int (bitlen (nat \<lfloor>x\<rfloor>)) - 1
               else - int (bitlen (nat \<lfloor>1 / x\<rfloor>)))
      in if pow2 (c + 1) \<le> x then c + 1 else c)"

definition roundEven :: "rat \<Rightarrow> int" where
  "roundEven t =
     (let f = \<lfloor>t\<rfloor>; r = t - of_int f
      in if r < 1 / 2 then f else if 1 / 2 < r then f + 1 else if even f then f else f + 1)"

definition round64 :: "rat \<Rightarrow> float64" where
  "round64 x =
     (if x = 0 then 0
      else let e = ilog2 \<bar>x\<bar> - 52
           in sgn x * of_int (roundEven (\<bar>x\<bar> / pow2 e)) * pow2 e)"

text \<open>
  \<open>float64(n)\<close> for an integer \<open>n\<close> (an \<open>int\<close>, an \<open>int64\<close> or the value of a \<open>uint64\<close>), and
  the three operations the program uses.
\<close>

definition f64_of_int :: "int \<Rightarrow> float64" where
  "f64_of_int n = round64 (of_int n)"

definition f64_add :: "float64 \<Rightarrow> float64 \<Rightarrow> float64" where
  "f64_add a b = round64 (a + b)"

definition f64_mul :: "float64 \<Rightarrow> float64 \<Rightarrow> float64" where
  "f64_mul a b = round64 (a * b)"

definition f64_div :: "float64 \<Rightarrow> float64 \<Rightarrow> float64" where
  "f64_div a b = round64 (a / b)"

text \<open>
  \<open>bracket l h x y\<close>: the number \<open>y\<close> lies between \<open>l\<close> times and \<open>h\<close> times the number \<open>x\<close>;
  the relative error of a computed \<open>y\<close> against the exact \<open>x\<close> is stated with it.
\<close>

definition bracket :: "rat \<Rightarrow> rat \<Rightarrow> rat \<Rightarrow> rat \<Rightarrow> bool" where
  "bracket l h x y \<longleftrightarrow> l * x \<le> y \<and> y \<le> h * x"

subsection \<open>Durations\<close>

text \<open>
  \<open>t.Sub(u)\<close> is the difference of the two times as a Duration, the largest or the smallest
  Duration when the difference does not fit. \<open>d.Seconds()\<close> is, in the words of package
  time, \<open>sec := d / Second; nsec := d % Second; return float64(sec) + float64(nsec)/1e9\<close>,
  with the truncating division and remainder of Go's integers: \<open>sdiv\<close> and \<open>smod\<close>.
\<close>

definition Sub :: "time \<Rightarrow> time \<Rightarrow> duration" where
  "Sub t u =
     (if t - u > 2 ^ 63 - 1 then 2 ^ 63 - 1
      else if t - u < - (2 ^ 63) then - (2 ^ 63)
      else t - u)"

definition Seconds :: "duration \<Rightarrow> float64" where
  "Seconds d =
     f64_add (f64_of_int (d sdiv Second)) (f64_div (f64_of_int (d smod Second)) 1000000000)"

subsection \<open>The structs\<close>

record DataPoint =
  dp_Timestamp :: time
  dp_BytesRx :: uint64
  dp_BytesTx :: uint64
  dp_SpeedRx :: float64
  dp_SpeedTx :: float64

record InterfaceStats =
  Name :: string
  BytesRx :: uint64
  BytesTx :: uint64
  PacketsRx :: uint64
  PacketsTx :: uint64
  SpeedRx :: float64
  SpeedTx :: float64
  History :: "DataPoint list"
  LastCheck :: time

record Device =
  IP :: string
  MAC :: string
  Hostname :: string
  LastSeen :: time
  IsActive :: bool
  Vendor :: string

record PingPoint =
  pp_Timestamp :: time
  Latency :: duration
  Success :: bool

record PingStats =
  Host :: string
  LastLatency :: duration
  AvgLatency :: duration
  PacketLoss :: float64
  TotalPings :: int
  FailedPings :: int
  ps_History :: "PingPoint list"
  ps_LastUpdated :: time

text \<open>
  The three maps of the Store hold pointers to structs. Every pointer is created by the
  update that first sees its key and is stored under that key only, so the update
  operations are modelled on maps of struct values. The pointers matter for the snapshot
  operations, which are modelled on an explicit heap further down.
\<close>

record Store =
  Interfaces :: "string \<rightharpoonup> InterfaceStats"
  Devices :: "string \<rightharpoonup> Device"
  PingResults :: "string \<rightharpoonup> PingStats"
  LastUpdated :: time

definition NewStore :: "time \<Rightarrow> Store" where
  "NewStore now =
     \<lparr>Interfaces = Map.empty, Devices = Map.empty, PingResults = Map.empty,
      LastUpdated = now\<rparr>"

subsection \<open>UpdateInterface\<close>

text \<open>\<open>h = append(h, point); if len(h) > MaxHistoryPoints { h = h[1:] }\<close>, for both histories.\<close>

definition appendBounded :: "'a list \<Rightarrow> 'a \<Rightarrow> 'a list" where
  "appendBounded h point =
     (let h1 = h @ [point] in if length h1 > MaxHistoryPoints then drop 1 h1 else h1)"

definition UpdateInterface ::
  "string \<Rightarrow> uint64 \<Rightarrow> uint64 \<Rightarrow> uint64 \<Rightarrow> uint64 \<Rightarrow> time \<Rightarrow> Store \<Rightarrow> Store" where
  "UpdateInterface name bytesRx bytesTx packetsRx packetsTx now s =
     (case Interfaces s name of
        Some iface \<Rightarrow>
          let timeDiff = Seconds (Sub now (LastCheck iface));
              iface1 = (if timeDiff > 0
                        then iface\<lparr>SpeedRx := f64_div (f64_of_int (uint (bytesRx - BytesRx iface)))
                                                timeDiff,
                                   SpeedTx := f64_div (f64_of_int (uint (bytesTx - BytesTx iface)))
                                                timeDiff\<rparr>
                        else iface);
              point = \<lparr>dp_Timestamp = now, dp_BytesRx = bytesRx, dp_BytesTx = bytesTx,
                       dp_SpeedRx = SpeedRx iface1, dp_SpeedTx = SpeedTx iface1\<rparr>;
              iface2 = iface1\<lparr>History := appendBounded (History iface1) point\<rparr>;
              iface3 = iface2\<lparr>BytesRx := bytesRx, BytesTx := bytesTx,
                              PacketsRx := packetsRx, PacketsTx := packetsTx,
                              LastCheck := now\<rparr>
          in s\<lparr>Interfaces := (Interfaces s)(name \<mapsto> iface3), LastUpdated := now\<rparr>
      | None \<Rightarrow>
          s\<lparr>Interfaces := (Interfaces s)(name \<mapsto>
               \<lparr>Name = name, BytesRx = bytesRx, BytesTx = bytesTx,
                PacketsRx = packetsRx, PacketsTx = packetsTx,
                SpeedRx = 0, SpeedTx = 0, History = [], LastCheck = now\<rparr>),
            LastUpdated := now\<rparr>)"

subsection \<open>UpdateDevice\<close>

definition UpdateDevice :: "string \<Rightarrow> string \<Rightarrow> string \<Rightarrow> time \<Rightarrow> Store \<Rightarrow> Store" where
  "UpdateDevice ip mac hostname now s =
     (case Devices s ip of
        Some device \<Rightarrow>
          let device1 = device\<lparr>LastSeen := now, IsActive := True\<rparr>;
              device2 = (if hostname \<noteq> [] \<and> Hostname device1 = []
                         then device1\<lparr>Hostname := hostname\<rparr> else device1);
              device3 = (if mac \<noteq> [] \<and> MAC device2 = []
                         then device2\<lparr>MAC := mac\<rparr> else device2)
          in s\<lparr>Devices := (Devices s)(ip \<mapsto> device3)\<rparr>
      | None \<Rightarrow>
          s\<lparr>Devices := (Devices s)(ip \<mapsto>
               \<lparr>IP = ip, MAC = mac, Hostname = hostname, LastSeen = now,
                IsActive = True, Vendor = []\<rparr>)\<rparr>)"

subsection \<open>UpdatePing and StorePingData\<close>

text \<open>
  The rescan of the history: \<open>total\<close> (here \<open>tot\<close>) and \<open>count\<close> (here \<open>cnt\<close>) start at
  the new sample and take in every successful point; \<open>total\<close> is an \<open>int64\<close> and wraps.
\<close>

fun rescan :: "PingPoint list \<Rightarrow> duration \<Rightarrow> int \<Rightarrow> duration \<times> int" where
  "rescan [] tot cnt = (tot, cnt)"
| "rescan (point # rest) tot cnt =
     (if Success point then rescan rest (int64 (tot + Latency point)) (cnt + 1)
      else rescan rest tot cnt)"

text \<open>
  The branch for a known target is the same text in \<open>UpdatePing\<close> and \<open>StorePingData\<close>.
  Go's \<open>/\<close> on integers truncates towards zero: \<open>sdiv\<close>. The loss is
  \<open>float64(ping.FailedPings) / float64(ping.TotalPings) * 100\<close>: two conversions, a
  division and a multiplication of doubles.
\<close>

definition recordExisting :: "PingStats \<Rightarrow> duration \<Rightarrow> bool \<Rightarrow> time \<Rightarrow> PingStats" where
  "recordExisting ping rtt success now =
     (let ping1 = ping\<lparr>TotalPings := TotalPings ping + 1\<rparr>;
          ping2 = (if \<not> success then ping1\<lparr>FailedPings := FailedPings ping1 + 1\<rparr>
                   else ping1\<lparr>LastLatency := rtt\<rparr>);
          ping3 = ping2\<lparr>PacketLoss :=
                    f64_mul (f64_div (f64_of_int (FailedPings ping2))
                                     (f64_of_int (TotalPings ping2))) 100\<rparr>;
          ping4 = (if success \<and> length (ps_History ping3) > 0
                   then (case rescan (ps_History ping3) rtt 1 of
                           (tot, cnt) \<Rightarrow> ping3\<lparr>AvgLatency := tot sdiv cnt\<rparr>)
                   else ping3);
          point = \<lparr>pp_Timestamp = now, Latency = rtt, Success = success\<rparr>
      in ping4\<lparr>ps_History := appendBounded (ps_History ping4) point,
                ps_LastUpdated := now\<rparr>)"

definition UpdatePing :: "string \<Rightarrow> duration \<Rightarrow> bool \<Rightarrow> time \<Rightarrow> Store \<Rightarrow> Store" where
  "UpdatePing host latency success now s =
     (case PingResults s host of
        Some ping \<Rightarrow>
          s\<lparr>PingResults := (PingResults s)(host \<mapsto> recordExisting ping latency success now)\<rparr>
      | None \<Rightarrow>
          let ping = \<lparr>Host = host, LastLatency = latency, AvgLatency = 0, PacketLoss = 0,
                      TotalPings = 1, FailedPings = 0,
                      ps_History = [\<lparr>pp_Timestamp = now, Latency = latency, Success = success\<rparr>],
                      ps_LastUpdated = now\<rparr>;
              ping1 = (if \<not> success then ping\<lparr>FailedPings := 1, PacketLoss := 100\<rparr> else ping)
          in s\<lparr>PingResults := (PingResults s)(host \<mapsto> ping1)\<rparr>)"

definition StorePingData ::
  "string \<Rightarrow> duration \<Rightarrow> bool \<Rightarrow> string \<Rightarrow> time \<Rightarrow> Store \<Rightarrow> Store" where
  "StorePingData host rtt success method now s =
     (case PingResults s host of
        Some ping \<Rightarrow>
          s\<lparr>PingResults := (PingResults s)(host \<mapsto> recordExisting ping rtt success now),
            LastUpdated := now\<rparr>
      | None \<Rightarrow>
          let avgLatency = (if success then rtt else 0);
              packetLoss = (if success then 0 else 100);
              failedPings = (if success then 0 else 1)
          in s\<lparr>PingResults := (PingResults s)(host \<mapsto>
                 \<lparr>Host = host, LastLatency = rtt, AvgLatency = avgLatency,
                  PacketLoss = packetLoss, TotalPings = 1, FailedPings = failedPings,
                  ps_History = [\<lparr>pp_Timestamp = now, Latency = rtt, Success = success\<rparr>],
                  ps_LastUpdated = now\<rparr>),
               LastUpdated := now\<rparr>)"

subsection \<open>Sequences of calls\<close>

text \<open>A writer's call with its arguments and the clock reading it takes.\<close>

datatype call =
  CallUpdateInterface string uint64 uint64 uint64 uint64 time
| CallUpdateDevice string string string time
| CallUpdatePing string duration bool time
| CallStorePingData string duration bool string time

fun step :: "call \<Rightarrow> Store \<Rightarrow> Store" where
  "step (CallUpdateInterface name rx tx prx ptx now) s = UpdateInterface name rx tx prx ptx now s"
| "step (CallUpdateDevice ip mac hostname now) s = UpdateDevice ip mac hostname now s"
| "step (CallUpdatePing host latency success now) s = UpdatePing host latency success now s"
| "step (CallStorePingData host rtt success method now) s =
     StorePingData host rtt success method now s"

definition run :: "call list \<Rightarrow> Store \<Rightarrow> Store" where
  "run cs s = fold step cs s"

section \<open>Vocabulary of the properties of the store\<close>

subsection \<open>Sticky device fields\<close>

text \<open>
  The first non-empty string of a list, and the empty string when there is none: what a
  first-write-wins field holds after the writes of the list. A device that is not stored
  counts as one whose fields are empty.
\<close>

definition firstNonEmpty :: "string list \<Rightarrow> string" where
  "firstNonEmpty xs = (case filter (\<lambda>x. x \<noteq> []) xs of [] \<Rightarrow> [] | x # _ \<Rightarrow> x)"

definition MACof :: "Store \<Rightarrow> string \<Rightarrow> string" where
  "MACof s ip = (case Devices s ip of None \<Rightarrow> [] | Some d \<Rightarrow> MAC d)"

definition HostnameOf :: "Store \<Rightarrow> string \<Rightarrow> string" where
  "HostnameOf s ip = (case Devices s ip of None \<Rightarrow> [] | Some d \<Rightarrow> Hostname d)"

definition deviceUpdates :: "string \<Rightarrow> (string \<times> string \<times> time) list \<Rightarrow> call list" where
  "deviceUpdates ip us = map (\<lambda>(mac, hostname, now). CallUpdateDevice ip mac hostname now) us"

subsection \<open>Probe counts\<close>

text \<open>
  The success flags of the probe-recording calls on host \<open>h\<close> in a sequence of calls, in
  call order, the number of failures among them, and the loss that the counters of a
  target give: their quotient as a double, times 100.
\<close>

fun probeOn :: "string \<Rightarrow> call \<Rightarrow> bool list" where
  "probeOn h (CallStorePingData host rtt success method now) = (if host = h then [success] else [])"
| "probeOn h (CallUpdatePing host latency success now) = (if host = h then [success] else [])"
| "probeOn h (CallUpdateInterface name rx tx prx ptx now) = []"
| "probeOn h (CallUpdateDevice ip mac hostname now) = []"

definition probes :: "string \<Rightarrow> call list \<Rightarrow> bool list" where
  "probes h cs = concat (map (probeOn h) cs)"

definition failures :: "bool list \<Rightarrow> int" where
  "failures bs = int (length (filter (\<lambda>b. \<not> b) bs))"

definition lossOf :: "PingStats \<Rightarrow> float64" where
  "lossOf p = f64_mul (f64_div (f64_of_int (FailedPings p)) (f64_of_int (TotalPings p))) 100"

text \<open>
  The invariant of one stored target: its sample counters are those of the flags \<open>bs\<close>
  recorded for it, and its loss is the loss that its counters give. A target with no
  sample is not stored.
\<close>

definition counted :: "bool list \<Rightarrow> PingStats option \<Rightarrow> bool" where
  "counted bs r =
     (case r of
        None \<Rightarrow> bs = []
      | Some p \<Rightarrow> bs \<noteq> [] \<and> TotalPings p = int (length bs) \<and> FailedPings p = failures bs
                   \<and> PacketLoss p = lossOf p)"

subsection \<open>Histories\<close>

text \<open>
  \<open>lastN n xs\<close> is the last \<open>n\<close> elements of \<open>xs\<close> (all of \<open>xs\<close> when it is shorter), in
  order. A sequence of StorePingData calls on one host is given by the arguments and
  clock readings of the calls; the point each call appends is built from them. A sequence
  of UpdateInterface calls on one name likewise; the point a call appends carries the
  speeds stored by that call, and the call that creates the entry appends none. The
  history of a key that is not stored counts as empty.
\<close>

definition lastN :: "nat \<Rightarrow> 'a list \<Rightarrow> 'a list" where
  "lastN n xs = drop (length xs - n) xs"

type_synonym probe = "duration \<times> bool \<times> string \<times> time"

definition pingCalls :: "string \<Rightarrow> probe list \<Rightarrow> call list" where
  "pingCalls host ps =
     map (\<lambda>(rtt, success, method, now). CallStorePingData host rtt success method now) ps"

definition pingPoints :: "probe list \<Rightarrow> PingPoint list" where
  "pingPoints ps =
     map (\<lambda>(rtt, success, method, now). \<lparr>pp_Timestamp = now, Latency = rtt, Success = success\<rparr>) ps"

definition pingHistory :: "Store \<Rightarrow> string \<Rightarrow> PingPoint list" where
  "pingHistory s host = (case PingResults s host of None \<Rightarrow> [] | Some p \<Rightarrow> ps_History p)"

type_synonym reading = "uint64 \<times> uint64 \<times> uint64 \<times> uint64 \<times> time"

definition ifaceCalls :: "string \<Rightarrow> reading list \<Rightarrow> call list" where
  "ifaceCalls name us =
     map (\<lambda>(rx, tx, prx, ptx, now). CallUpdateInterface name rx tx prx ptx now) us"

definition ifaceHistory :: "Store \<Rightarrow> string \<Rightarrow> DataPoint list" where
  "ifaceHistory s name = (case Interfaces s name of None \<Rightarrow> [] | Some i \<Rightarrow> History i)"

fun ifacePoints :: "string \<Rightarrow> reading list \<Rightarrow> Store \<Rightarrow> DataPoint list" where
  "ifacePoints name [] s = []"
| "ifacePoints name ((rx, tx, prx, ptx, now) # us) s =
     (let s' = UpdateInterface name rx tx prx ptx now s
      in (case (Interfaces s name, Interfaces s' name) of
            (Some i, Some i') \<Rightarrow>
              [\<lparr>dp_Timestamp = now, dp_BytesRx = rx, dp_BytesTx = tx,
                dp_SpeedRx = SpeedRx i', dp_SpeedTx = SpeedTx i'\<rparr>]
          | _ \<Rightarrow> []) @ ifacePoints name us s')"

subsection \<open>Readers of single fields\<close>

text \<open>The stored average latency of a host, if the host is stored.\<close>

definition avgOf :: "Store \<Rightarrow> string \<Rightarrow> duration option" where
  "avgOf s host = map_option AvgLatency (PingResults s host)"

text \<open>The stored speeds of an interface, if it is stored.\<close>

definition speedsOf :: "Store \<Rightarrow> string \<Rightarrow> (float64 \<times> float64) option" where
  "speedsOf s name = map_option (\<lambda>i. (SpeedRx i, SpeedTx i)) (Interfaces s name)"

section \<open>Snapshots: the store as pointers into a heap\<close>

text \<open>
  The maps of the Store hold pointers, and the snapshot operations hand pointers out. A
  pointer is an address into a heap of structs (the address is the index; a new struct
  is put at the end); a \<open>map[string]*T\<close> is an association list from keys to addresses,
  ranged over in list order; \<open>deref\<close> reads the structs a map points to. The Store's map
  is wellformed: its keys are distinct and its pointers are allocated. The maps of the
  value-level Store above are \<open>deref\<close> of the Store's pointer maps.
\<close>

type_synonym addr = nat
type_synonym 'v heap = "'v list"
type_synonym ptrmap = "(string \<times> addr) list"

definition deref :: "'v heap \<Rightarrow> ptrmap \<Rightarrow> (string \<rightharpoonup> 'v)" where
  "deref h m k =
     (case map_of m k of
        None \<Rightarrow> None
      | Some a \<Rightarrow> if a < length h then Some (h ! a) else None)"

definition wellformed :: "'v heap \<Rightarrow> ptrmap \<Rightarrow> bool" where
  "wellformed h m = (distinct (map fst m) \<and> list_all (\<lambda>(k, a). a < length h) m)"

text \<open>
  GetInterfaces and GetPings: \<open>for k, v := range m { result[k] = v }\<close>. The heap is
  neither read nor written.
\<close>

fun copyMap :: "ptrmap \<Rightarrow> ptrmap \<Rightarrow> ptrmap" where
  "copyMap [] result = result"
| "copyMap ((k, v) # rest) result = copyMap rest (AList.update k v result)"

definition GetInterfaces :: "ptrmap \<Rightarrow> ptrmap" where
  "GetInterfaces m = copyMap m []"

definition GetPings :: "ptrmap \<Rightarrow> ptrmap" where
  "GetPings m = copyMap m []"

text \<open>
  GetDevices: \<open>device := *v\<close> copies the struct, and \<open>&device\<close> is the address of the
  copy, a new struct on the heap.
\<close>

fun copyDevices :: "time \<Rightarrow> ptrmap \<Rightarrow> ptrmap \<Rightarrow> Device heap \<Rightarrow> ptrmap \<times> Device heap" where
  "copyDevices cutoff [] result h = (result, h)"
| "copyDevices cutoff ((k, v) # rest) result h =
     (let device = h ! v;
          device1 = (if LastSeen device < cutoff then device\<lparr>IsActive := False\<rparr> else device)
      in copyDevices cutoff rest (AList.update k (length h) result) (h @ [device1]))"

definition GetDevices :: "time \<Rightarrow> ptrmap \<Rightarrow> Device heap \<Rightarrow> ptrmap \<times> Device heap" where
  "GetDevices now m h = copyDevices (now - 5 * Minute) m [] h"

text \<open>
  A caller's write through a snapshot entry, \<open>snapshot[k].field = x\<close>: the struct at the
  address the snapshot holds for \<open>k\<close> is replaced by \<open>f\<close> of it.
\<close>

definition writeEntry :: "ptrmap \<Rightarrow> string \<Rightarrow> ('v \<Rightarrow> 'v) \<Rightarrow> 'v heap \<Rightarrow> 'v heap" where
  "writeEntry snapshot k f h =
     (case map_of snapshot k of
        None \<Rightarrow> h
      | Some a \<Rightarrow> if a < length h then h[a := f (h ! a)] else h)"

text \<open>What GetDevices does to the copy of a device.\<close>

definition age :: "time \<Rightarrow> Device \<Rightarrow> Device" where
  "age cutoff d = (if LastSeen d < cutoff then d\<lparr>IsActive := False\<rparr> else d)"

section \<open>The reachability probe (package collector)\<close>

text \<open>
  The network is a parameter: \<open>pingICMP host\<close> and \<open>tcpPing host port\<close> give the outcome
  of the one ICMP attempt and of the one dial of a port that a call of pingHost makes,
  \<open>Inr rtt\<close> for a round-trip time and no error, \<open>Inl err\<close> for an error. pingHost returns
  its PingResult; the model returns with it the attempts made, in order. The timeout of a
  dial is a constant of the code and part of the outcome.
\<close>

record PingResult =
  pr_Host :: string
  RTT :: duration
  pr_Success :: bool
  Method :: string
  Error :: "string option"

datatype attempt = DialICMP string | DialTCP string string

definition tcpPorts :: "string list" where
  "tcpPorts = [''80'', ''443'', ''53'', ''22'']"

fun tcpFallback ::
  "(string \<Rightarrow> string \<Rightarrow> string + duration) \<Rightarrow> string \<Rightarrow> string list \<Rightarrow> attempt list
   \<Rightarrow> PingResult \<times> attempt list" where
  "tcpFallback tcpPing host [] dials =
     (\<lparr>pr_Host = host, RTT = 0, pr_Success = False, Method = ''FAILED'',
       Error = Some ''both ICMP and TCP ping failed''\<rparr>, dials)"
| "tcpFallback tcpPing host (port # ports) dials =
     (case tcpPing host port of
        Inr rtt \<Rightarrow>
          (\<lparr>pr_Host = host, RTT = rtt, pr_Success = True, Method = ''TCP:'' @ port,
            Error = None\<rparr>, dials @ [DialTCP host port])
      | Inl err \<Rightarrow> tcpFallback tcpPing host ports (dials @ [DialTCP host port]))"

definition pingHost ::
  "(string \<Rightarrow> string + duration) \<Rightarrow> (string \<Rightarrow> string \<Rightarrow> string + duration) \<Rightarrow> string
   \<Rightarrow> PingResult \<times> attempt list" where
  "pingHost pingICMP tcpPing host =
     (case pingICMP host of
        Inr rtt \<Rightarrow>
          (\<lparr>pr_Host = host, RTT = rtt, pr_Success = True, Method = ''ICMP'', Error = None\<rparr>,
           [DialICMP host])
      | Inl err \<Rightarrow> tcpFallback tcpPing host tcpPorts [DialICMP host])"

text \<open>
  collectPingData: one pingHost and one StorePingData per target; the body of the loop
  is \<open>collectTarget\<close>, and each target comes with the clock reading of its StorePingData.
\<close>

definition collectTarget ::
  "(string \<Rightarrow> string + duration) \<Rightarrow> (string \<Rightarrow> string \<Rightarrow> string + duration) \<Rightarrow> string
   \<Rightarrow> time \<Rightarrow> Store \<Rightarrow> Store" where
  "collectTarget pingICMP tcpPing target now s =
     (let result = fst (pingHost pingICMP tcpPing target)
      in StorePingData target (RTT result) (pr_Success result) (Method result) now s)"

fun collectPingData ::
  "(string \<Rightarrow> string + duration) \<Rightarrow> (string \<Rightarrow> string \<Rightarrow> string + duration)
   \<Rightarrow> (string \<times> time) list \<Rightarrow> Store \<Rightarrow> Store" where
  "collectPingData pingICMP tcpPing [] s = s"
| "collectPingData pingICMP tcpPing ((target, now) # targets) s =
     collectPingData pingICMP tcpPing targets (collectTarget pingICMP tcpPing target now s)"

text \<open>Whether the dial of a port succeeds, and the round-trip time it measures.\<close>

definition connects :: "(string \<Rightarrow> string \<Rightarrow> string + duration) \<Rightarrow> string \<Rightarrow> string \<Rightarrow> bool" where
  "connects tcpPing host port = (case tcpPing host port of Inr rtt \<Rightarrow> True | Inl err \<Rightarrow> False)"

definition latency :: "(string \<Rightarrow> string \<Rightarrow> string + duration) \<Rightarrow> string \<Rightarrow> string \<Rightarrow> duration" where
  "latency tcpPing host port = (case tcpPing host port of Inr rtt \<Rightarrow> rtt | Inl err \<Rightarrow> 0)"

section \<open>Device discovery (package collector)\<close>

subsection \<open>IPv4 addresses and networks\<close>

text \<open>
  A \<open>net.IP\<close> is a slice of bytes, four for an IPv4 address, the most significant
  first. \<open>val\<close> reads the bytes as one number and \<open>bytes4\<close> writes a number below 2^32
  back as four bytes. The functions of Go's library that pingSweep calls are modelled by
  what they compute on these values:
  \<^item> \<open>net.ParseCIDR\<close> is given the address and the prefix length that the text
    \<open>a.b.c.d/ones\<close> denotes; it fails unless the address has four bytes and the prefix
    length is at most 32, and returns the network: the address with its low
    \<open>32 - ones\<close> bits cleared, and the mask of \<open>ones\<close> leading one bits, kept here as
    the number \<open>ones\<close>;
  \<^item> \<open>IP.Mask\<close> clears the low \<open>32 - ones\<close> bits of an address;
  \<^item> \<open>IPNet.Contains\<close> compares the network number and the address under the mask;
  \<^item> \<open>IP.String\<close> is the dotted decimal form, each byte in decimal with no leading zero
    (the sweep has four-byte addresses only; other lengths are not rendered);
  \<^item> \<open>strings.HasSuffix\<close> compares the end of a string with the suffix.
\<close>

type_synonym byte = "8 word"

definition val :: "byte list \<Rightarrow> nat" where
  "val ip = foldl (\<lambda>acc b. acc * 256 + unat b) 0 ip"

definition bytes4 :: "nat \<Rightarrow> byte list" where
  "bytes4 v = [of_nat (v div 2 ^ 24), of_nat (v div 2 ^ 16), of_nat (v div 2 ^ 8), of_nat v]"

record IPNet =
  NetIP :: "byte list"
  Ones :: nat

definition Mask :: "byte list \<Rightarrow> nat \<Rightarrow> byte list" where
  "Mask ip ones = bytes4 (val ip - val ip mod 2 ^ (32 - ones))"

definition Contains :: "IPNet \<Rightarrow> byte list \<Rightarrow> bool" where
  "Contains ipnet ip =
     (length ip = length (NetIP ipnet)
      \<and> val (Mask (NetIP ipnet) (Ones ipnet)) = val (Mask ip (Ones ipnet)))"

definition ParseCIDR :: "byte list \<Rightarrow> nat \<Rightarrow> IPNet option" where
  "ParseCIDR addr ones =
     (if length addr = 4 \<and> ones \<le> 32 then Some \<lparr>NetIP = Mask addr ones, Ones = ones\<rparr>
      else None)"

text \<open>The decimal digits of a number, the least significant first, and in reading order.\<close>

fun uitoa_rev :: "nat \<Rightarrow> string" where
  "uitoa_rev n =
     (''0123456789'' ! (n mod 10)) # (if n < 10 then [] else uitoa_rev (n div 10))"

definition uitoa :: "nat \<Rightarrow> string" where
  "uitoa n = rev (uitoa_rev n)"

fun IPString :: "byte list \<Rightarrow> string" where
  "IPString [a, b, c, d] =
     uitoa (unat a) @ ''.'' @ uitoa (unat b) @ ''.'' @ uitoa (unat c) @ ''.'' @ uitoa (unat d)"
| "IPString ip = ''?''"

definition HasSuffix :: "string \<Rightarrow> string \<Rightarrow> bool" where
  "HasSuffix s suffix =
     (length s \<ge> length suffix \<and> drop (length s - length suffix) s = suffix)"

subsection \<open>incIP and pingSweep\<close>

text \<open>
  incIP: \<open>for j := len(ip) - 1; j >= 0; j-- { ip[j]++; if ip[j] != 0 { break } }\<close>. The
  loop runs from the last byte to the first, so \<open>incLow\<close> is the loop on the reversed
  slice; a byte wraps from 255 to 0.
\<close>

fun incLow :: "byte list \<Rightarrow> byte list" where
  "incLow [] = []"
| "incLow (b # bs) = (if b + 1 \<noteq> 0 then (b + 1) # bs else (b + 1) # incLow bs)"

definition incIP :: "byte list \<Rightarrow> byte list" where
  "incIP ip = rev (incLow (rev ip))"

text \<open>
  The loop of pingSweep, \<open>for ip := ipnet.IP.Mask(ipnet.Mask); ipnet.Contains(ip); incIP(ip)\<close>.
  \<open>ping\<close> is the outcome of the external ping of an address. The loop returns the
  responders \<open>active\<close>; the model returns with them the addresses it has pinged, in
  order. The loop need not end, so the result is an option: \<open>None\<close> when it runs forever.
\<close>

partial_function (option) sweep ::
  "(string \<Rightarrow> bool) \<Rightarrow> IPNet \<Rightarrow> byte list \<Rightarrow> string list \<Rightarrow> string list
   \<Rightarrow> (string list \<times> string list) option" where
  "sweep ping ipnet ip active probed =
     (if Contains ipnet ip
      then (if HasSuffix (IPString ip) ''.0'' \<or> HasSuffix (IPString ip) ''.255''
            then sweep ping ipnet (incIP ip) active probed
            else if ping (IPString ip)
                 then sweep ping ipnet (incIP ip) (active @ [IPString ip]) (probed @ [IPString ip])
                 else sweep ping ipnet (incIP ip) active (probed @ [IPString ip]))
      else Some (active, probed))"

definition pingSweep ::
  "(string \<Rightarrow> bool) \<Rightarrow> byte list \<Rightarrow> nat \<Rightarrow> (string list \<times> string list) option" where
  "pingSweep ping addr ones =
     (case ParseCIDR addr ones of
        None \<Rightarrow> Some ([], [])
      | Some ipnet \<Rightarrow> sweep ping ipnet (Mask (NetIP ipnet) (Ones ipnet)) [] [])"

subsection \<open>The addresses of a subnet\<close>

text \<open>
  The test that makes the sweep skip an address; all the addresses of a network in
  ascending order, from the network address to the broadcast address; and the addresses
  among \<open>v, ..., v + k - 1\<close> that the sweep pings, in dotted decimal form.
\<close>

definition edge :: "byte list \<Rightarrow> bool" where
  "edge ip = (HasSuffix (IPString ip) ''.0'' \<or> HasSuffix (IPString ip) ''.255'')"

definition subnetAddrs :: "IPNet \<Rightarrow> byte list list" where
  "subnetAddrs ipnet =
     map bytes4 [val (NetIP ipnet) ..< val (NetIP ipnet) + 2 ^ (32 - Ones ipnet)]"

definition hosts :: "nat \<Rightarrow> nat \<Rightarrow> string list" where
  "hosts v k = map IPString (filter (\<lambda>ip. \<not> edge ip) (map bytes4 [v..<v + k]))"

section \<open>Double-precision rounding\<close>

declare bitlen.simps [simp del]

lemma floor_numeral_div: "\<lfloor>numeral a / numeral b :: rat\<rfloor> = numeral a div numeral b"
  using floor_divide_of_int_eq [of "numeral a" "numeral b", where 'a = rat] by simp

text \<open>The rules that compute a rounding on numerals.\<close>

lemmas eval64 =
  f64_of_int_def f64_add_def f64_mul_def f64_div_def round64_def ilog2_def roundEven_def
  pow2_def Let_def floor_numeral_div bitlen.simps

subsection \<open>The exponent of the leading bit\<close>

lemma bitlen_pos: "0 < n \<Longrightarrow> 0 < bitlen n"
  by (subst bitlen.simps) simp

lemma bitlen_bounds: "0 < n \<Longrightarrow> 2 ^ (bitlen n - 1) \<le> n \<and> n < 2 ^ bitlen n"
proof (induction n rule: less_induct)
  case (less n)
  show ?case
  proof (cases "n div 2 = 0")
    case True
    with less.prems have "n = 1" by auto
    then show ?thesis by (simp add: bitlen.simps [of "Suc 0"] bitlen.simps [of 0])
  next
    case False
    then have pos: "0 < n div 2" by simp
    have "n div 2 < n" using less.prems by simp
    from less.IH [OF this pos]
    have IH: "2 ^ (bitlen (n div 2) - 1) \<le> n div 2" "n div 2 < 2 ^ bitlen (n div 2)" by simp_all
    have b: "bitlen n = Suc (bitlen (n div 2))"
      using less.prems by (subst bitlen.simps) simp
    have b1: "0 < bitlen (n div 2)"
      using pos by (rule bitlen_pos)
    have "2 * 2 ^ (bitlen (n div 2) - 1) \<le> 2 * (n div 2)" using IH(1) by simp
    also have "\<dots> \<le> n" by simp
    finally have lo: "2 ^ bitlen (n div 2) \<le> n"
      using b1 by (cases "bitlen (n div 2)") simp_all
    have "n < 2 * (n div 2) + 2" by presburger
    also have "\<dots> \<le> 2 * 2 ^ bitlen (n div 2)" using IH(2) by simp
    finally have hi: "n < 2 ^ Suc (bitlen (n div 2))" by simp
    show ?thesis using lo hi by (simp add: b)
  qed
qed

lemma pow2_pos: "0 < pow2 e"
  by (simp add: pow2_def)

lemma pow2_Suc: "pow2 (e + 1) = 2 * pow2 e"
proof -
  consider "0 \<le> e" | "e = - 1" | "e < - 1" by linarith
  then show ?thesis
  proof cases
    case 1
    then show ?thesis by (simp add: pow2_def nat_add_distrib)
  next
    case 2
    then show ?thesis by (simp add: pow2_def)
  next
    case 3
    then have "nat (- e) = Suc (nat (- e - 1))" by simp
    then have "(2::rat) ^ nat (- e) = 2 * 2 ^ nat (- e - 1)" by simp
    with 3 show ?thesis by (simp add: pow2_def)
  qed
qed

lemma pow2_less_Suc: "pow2 e < pow2 (e + 1)"
  using pow2_pos [of e] by (simp add: pow2_Suc)

lemma pow2_of_nat: "pow2 (int k) = 2 ^ k"
  by (simp add: pow2_def)

lemma pow2_neg_nat: "pow2 (- int k) = 1 / 2 ^ k"
  by (cases "k = 0") (simp_all add: pow2_def)

lemma pow2_powi: "pow2 e = 2 powi e"
  by (cases "0 \<le> e") (simp_all add: pow2_def power_int_def power_one_over)

lemma pow2_add: "pow2 (a + b) = pow2 a * pow2 b"
  by (simp add: pow2_powi power_int_add)

lemma pow_le_of_nat: "2 ^ k \<le> n \<Longrightarrow> (2::rat) ^ k \<le> of_nat n"
proof -
  assume "2 ^ k \<le> n"
  then have "(of_nat (2 ^ k) :: rat) \<le> of_nat n" by (simp only: of_nat_le_iff)
  then show ?thesis by simp
qed

lemma of_nat_less_pow: "n < 2 ^ k \<Longrightarrow> (of_nat n :: rat) + 1 \<le> 2 ^ k"
proof -
  assume "n < 2 ^ k"
  then have "Suc n \<le> 2 ^ k" by simp
  then have "(of_nat (Suc n) :: rat) \<le> of_nat (2 ^ k)" by (simp only: of_nat_le_iff)
  then show ?thesis by simp
qed

lemma ilog2_ge1:
  assumes "1 \<le> x"
  shows "ilog2 x = int (bitlen (nat \<lfloor>x\<rfloor>)) - 1"
    and "pow2 (ilog2 x) \<le> x" and "x < pow2 (ilog2 x + 1)"
proof -
  define n where "n = nat \<lfloor>x\<rfloor>"
  have n: "0 < n" using assms by (simp add: n_def)
  have "of_nat n = (of_int \<lfloor>x\<rfloor> :: rat)" using assms by (simp add: n_def)
  then have fl: "of_nat n \<le> x" "x < of_nat n + 1"
    using floor_correct [of x] by simp_all
  from bitlen_bounds [OF n] have b: "2 ^ (bitlen n - 1) \<le> n" "n < 2 ^ bitlen n" by simp_all
  have bpos: "0 < bitlen n" using n by (rule bitlen_pos)
  have "int (bitlen n) - 1 = int (bitlen n - 1)" using bpos by simp
  then have "pow2 (int (bitlen n) - 1) = 2 ^ (bitlen n - 1)" by (simp only: pow2_of_nat)
  then have lo: "pow2 (int (bitlen n) - 1) \<le> x"
    using order_trans [OF pow_le_of_nat [OF b(1)] fl(1)] by simp
  have hi: "x < pow2 (int (bitlen n))"
    using less_le_trans [OF fl(2) of_nat_less_pow [OF b(2)]] by (simp only: pow2_of_nat)
  then have "\<not> pow2 (int (bitlen n) - 1 + 1) \<le> x" by simp
  then show i: "ilog2 x = int (bitlen (nat \<lfloor>x\<rfloor>)) - 1"
    unfolding ilog2_def Let_def n_def using assms by (simp only: if_True if_False)
  show "pow2 (ilog2 x) \<le> x" using lo by (simp only: i n_def)
  show "x < pow2 (ilog2 x + 1)" using hi by (simp add: i n_def)
qed

lemma ilog2_lt1:
  assumes "0 < x" "x < 1"
  shows "pow2 (ilog2 x) \<le> x \<and> x < pow2 (ilog2 x + 1)"
proof -
  define n where "n = nat \<lfloor>1 / x\<rfloor>"
  define c where "c = - int (bitlen n)"
  have y: "1 < 1 / x" using assms by simp
  have "(1::rat) \<le> 1 / x" using y by simp
  then have "1 \<le> \<lfloor>1 / x\<rfloor>" by (simp only: one_le_floor)
  then have n: "0 < n" by (simp add: n_def)
  have "(0::rat) \<le> 1 / x" using assms(1) by simp
  then have "0 \<le> \<lfloor>1 / x\<rfloor>" by (simp only: zero_le_floor)
  then have "of_nat n = (of_int \<lfloor>1 / x\<rfloor> :: rat)" unfolding n_def by (rule of_nat_nat)
  then have fl: "of_nat n \<le> 1 / x" "1 / x < of_nat n + 1"
    using floor_correct [of "1 / x"] by simp_all
  from bitlen_bounds [OF n] have b: "2 ^ (bitlen n - 1) \<le> n" "n < 2 ^ bitlen n" by simp_all
  have bpos: "0 < bitlen n" using n by (rule bitlen_pos)
  have "1 / x < 2 ^ bitlen n"
    using less_le_trans [OF fl(2) of_nat_less_pow [OF b(2)]] .
  then have "1 < 2 ^ bitlen n * x"
    using assms(1) by (simp add: pos_divide_less_eq)
  then have "1 / 2 ^ bitlen n < x"
    by (simp add: pos_divide_less_eq mult.commute)
  then have lo: "pow2 c < x"
    by (simp only: c_def pow2_neg_nat)
  have "(2::rat) ^ (bitlen n - 1) \<le> 1 / x"
    using order_trans [OF pow_le_of_nat [OF b(1)] fl(1)] .
  then have "2 ^ (bitlen n - 1) * x \<le> 1"
    using assms(1) by (simp add: pos_le_divide_eq)
  then have "x \<le> 1 / 2 ^ (bitlen n - 1)"
    by (simp add: pos_le_divide_eq mult.commute)
  moreover have "c + 1 = - int (bitlen n - 1)" using bpos by (simp add: c_def)
  ultimately have hi: "x \<le> pow2 (c + 1)"
    by (simp only: pow2_neg_nat)
  have il: "ilog2 x = (if pow2 (c + 1) \<le> x then c + 1 else c)"
    unfolding ilog2_def Let_def c_def n_def using assms(2) by simp
  show ?thesis
  proof (cases "pow2 (c + 1) \<le> x")
    case True
    then have i: "ilog2 x = c + 1" by (simp only: il if_True)
    have "x < pow2 (c + 1 + 1)" using hi pow2_less_Suc [of "c + 1"] by (rule le_less_trans)
    then show ?thesis unfolding i using True by simp
  next
    case False
    then have i: "ilog2 x = c" by (simp only: il if_False)
    show ?thesis unfolding i using lo False by simp
  qed
qed

lemma ilog2_bounds:
  assumes "0 < x"
  shows "pow2 (ilog2 x) \<le> x \<and> x < pow2 (ilog2 x + 1)"
  using ilog2_ge1(2,3) [of x] ilog2_lt1 [of x] assms by (cases "1 \<le> x") simp_all

subsection \<open>The rounding\<close>

lemma roundEven_bounds: "\<lfloor>t\<rfloor> \<le> roundEven t" "roundEven t \<le> \<lfloor>t\<rfloor> + 1"
  by (simp_all add: roundEven_def Let_def)

lemma roundEven_error: "\<bar>of_int (roundEven t) - t\<bar> \<le> 1 / 2"
proof -
  define r where "r = t - of_int \<lfloor>t\<rfloor>"
  have r: "0 \<le> r" "r < 1" using floor_correct [of t] by (simp_all add: r_def)
  have t: "t = of_int \<lfloor>t\<rfloor> + r" by (simp add: r_def)
  have "roundEven t = \<lfloor>t\<rfloor> \<and> r \<le> 1 / 2 \<or> roundEven t = \<lfloor>t\<rfloor> + 1 \<and> 1 / 2 \<le> r"
    by (auto simp add: roundEven_def Let_def r_def)
  then show ?thesis
  proof
    assume "roundEven t = \<lfloor>t\<rfloor> \<and> r \<le> 1 / 2"
    then show ?thesis using r by (subst (2) t) simp
  next
    assume "roundEven t = \<lfloor>t\<rfloor> + 1 \<and> 1 / 2 \<le> r"
    then show ?thesis using r by (subst (2) t) simp
  qed
qed

lemma round64_0: "round64 0 = 0"
  by (simp add: round64_def)

lemma scaled_ge:
  assumes "0 < x"
  shows "2 ^ 52 \<le> x / pow2 (ilog2 x - 52)"
proof -
  have "pow2 (ilog2 x) = pow2 (ilog2 x - 52) * pow2 52"
    using pow2_add [of "ilog2 x - 52" 52] by simp
  also have "pow2 52 = 2 ^ 52" using pow2_of_nat [of 52] by simp
  finally have "pow2 (ilog2 x - 52) * 2 ^ 52 \<le> x"
    using ilog2_bounds [OF assms] by simp
  then show ?thesis using pow2_pos [of "ilog2 x - 52"]
    by (simp add: pos_le_divide_eq mult.commute)
qed

lemma round64_pos:
  assumes "0 < x"
  shows "0 < round64 x"
proof -
  from scaled_ge [OF assms] have "(1::rat) \<le> x / pow2 (ilog2 x - 52)" by simp
  then have "1 \<le> \<lfloor>x / pow2 (ilog2 x - 52)\<rfloor>" by (simp add: le_floor_iff)
  with roundEven_bounds(1) [of "x / pow2 (ilog2 x - 52)"]
  have "0 < roundEven (x / pow2 (ilog2 x - 52))" by linarith
  then show ?thesis
    using assms pow2_pos [of "ilog2 x - 52"] by (simp add: round64_def Let_def)
qed

lemma round64_nonneg: "0 \<le> x \<Longrightarrow> 0 \<le> round64 x"
  using round64_pos [of x] by (cases "x = 0") (simp_all add: round64_0 less_imp_le)

text \<open>The relative error of a rounding is at most \<open>2^-53\<close>.\<close>

lemma round64_error: "\<bar>round64 x - x\<bar> \<le> \<bar>x\<bar> / 2 ^ 53"
proof (cases "x = 0")
  case True
  then show ?thesis by (simp add: round64_0)
next
  case False
  define a where "a = \<bar>x\<bar>"
  define p where "p = pow2 (ilog2 a - 52)"
  have a: "0 < a" using False by (simp add: a_def)
  have p: "0 < p" by (simp add: p_def pow2_pos)
  have sc: "2 ^ 52 \<le> a / p" unfolding p_def by (rule scaled_ge [OF a])
  have r: "round64 x = sgn x * (of_int (roundEven (a / p)) * p)"
    using False by (simp add: round64_def Let_def a_def p_def)
  have x: "x = sgn x * (a / p * p)" using p by (simp add: a_def sgn_mult_abs)
  have "\<bar>round64 x - x\<bar> = \<bar>sgn x * ((of_int (roundEven (a / p)) - a / p) * p)\<bar>"
    by (subst r, subst (2) x) (simp add: algebra_simps)
  also have "\<dots> = \<bar>of_int (roundEven (a / p)) - a / p\<bar> * p"
    using False p by (simp add: abs_mult abs_sgn_eq)
  also have "\<dots> \<le> 1 / 2 * p"
    using roundEven_error [of "a / p"] p by (simp add: mult_right_mono)
  also have "\<dots> \<le> a / 2 ^ 53"
  proof -
    have "2 ^ 52 * p \<le> a" using sc p by (simp add: pos_le_divide_eq)
    then show ?thesis by simp
  qed
  finally show ?thesis by (simp add: a_def)
qed

subsection \<open>Seconds of a positive duration\<close>

lemma Sub_pos: "u < t \<Longrightarrow> 0 < Sub t u"
  by (simp add: Sub_def)

lemma Seconds_pos:
  assumes "0 < d"
  shows "0 < Seconds d"
proof -
  define q where "q = d div 1000000000"
  define r where "r = d mod 1000000000"
  have sd: "d sdiv Second = q" "d smod Second = r"
    using assms by (simp_all add: signed_divide_int_def signed_modulo_int_def Second_def q_def r_def)
  have q: "0 \<le> q" and r: "0 \<le> r" using assms by (simp_all add: q_def r_def pos_imp_zdiv_nonneg_iff)
  have d: "d = q * 1000000000 + r" by (simp add: q_def r_def)
  have a: "0 \<le> f64_of_int q"
    using q by (simp add: f64_of_int_def round64_nonneg)
  have b: "0 \<le> f64_div (f64_of_int r) 1000000000"
    using r by (simp add: f64_of_int_def f64_div_def round64_nonneg)
  have "0 < f64_of_int q + f64_div (f64_of_int r) 1000000000"
  proof (cases "0 < q")
    case True
    then have "0 < f64_of_int q" by (simp add: f64_of_int_def round64_pos)
    with b show ?thesis by simp
  next
    case False
    with q d assms have "0 < r" by simp
    then have "0 < f64_of_int r" by (simp add: f64_of_int_def round64_pos)
    then have "0 < f64_div (f64_of_int r) 1000000000"
      by (simp add: f64_div_def round64_pos)
    with a show ?thesis by simp
  qed
  then show ?thesis
    by (simp add: Seconds_def sd f64_add_def round64_pos)
qed

subsection \<open>Relative errors\<close>

lemma bracket_mono:
  "bracket l h x y \<Longrightarrow> 0 \<le> x \<Longrightarrow> l' \<le> l \<Longrightarrow> h \<le> h' \<Longrightarrow> bracket l' h' x y"
  unfolding bracket_def
  by (meson mult_right_mono order_trans)

lemma round64_bracket:
  assumes "0 \<le> y"
  shows "bracket (1 - 1 / 2 ^ 53) (1 + 1 / 2 ^ 53) y (round64 y)"
proof -
  have "\<bar>round64 y - y\<bar> \<le> y / 2 ^ 53"
    using round64_error [of y] assms by simp
  then have "round64 y - y \<le> y / 2 ^ 53 \<and> - (round64 y - y) \<le> y / 2 ^ 53"
    by (simp only: abs_le_iff)
  then show ?thesis
    unfolding bracket_def by (simp add: field_simps)
qed

lemma bracket_round:
  assumes "bracket l h x y" "0 \<le> x" "0 \<le> l"
  shows "bracket (l * (1 - 1 / 2 ^ 53)) (h * (1 + 1 / 2 ^ 53)) x (round64 y)"
proof -
  have y: "0 \<le> y" using assms by (simp add: bracket_def) (meson mult_nonneg_nonneg order_trans)
  from round64_bracket [OF y]
  have r: "(1 - 1 / 2 ^ 53) * y \<le> round64 y" "round64 y \<le> (1 + 1 / 2 ^ 53) * y"
    by (simp_all add: bracket_def)
  have "(1 - 1 / 2 ^ 53) * (l * x) \<le> (1 - 1 / 2 ^ 53) * y"
    using assms(1) by (intro mult_left_mono) (simp_all add: bracket_def)
  moreover have "(1 + 1 / 2 ^ 53) * y \<le> (1 + 1 / 2 ^ 53) * (h * x)"
    using assms(1) by (intro mult_left_mono) (simp_all add: bracket_def)
  ultimately show ?thesis
    using r unfolding bracket_def by (simp add: mult.assoc mult.left_commute mult.commute)
qed

lemma bracket_div_const:
  "bracket l h x y \<Longrightarrow> 0 < c \<Longrightarrow> bracket l h (x / c) (y / c)"
  by (simp add: bracket_def divide_le_cancel pos_le_divide_eq pos_divide_le_eq)

lemma bracket_mult_const:
  "bracket l h x y \<Longrightarrow> 0 \<le> c \<Longrightarrow> bracket l h (x * c) (y * c)"
  unfolding bracket_def
  using mult_right_mono [of "l * x" y c] mult_right_mono [of y "h * x" c]
  by (simp add: mult.assoc)

lemma bracket_add:
  "bracket l h x a \<Longrightarrow> bracket l h z b \<Longrightarrow> bracket l h (x + z) (a + b)"
  by (simp add: bracket_def distrib_left add_mono)

lemma bracket_div:
  assumes "bracket l1 h1 x a" "bracket l2 h2 z b" "0 \<le> x" "0 < z" "0 < l1" "0 < l2"
  shows "bracket (l1 / h2) (h1 / l2) (x / z) (a / b)"
proof -
  have b: "0 < l2 * z" "l2 * z \<le> b" "b \<le> h2 * z"
    using assms by (simp_all add: bracket_def)
  then have bpos: "0 < b" by simp
  have h2: "0 < h2"
    using b assms(4) by (metis less_le_trans mult.commute zero_less_mult_pos)
  have a: "0 \<le> l1 * x" "l1 * x \<le> a" "a \<le> h1 * x"
    using assms by (simp_all add: bracket_def)
  then have apos: "0 \<le> a" by simp
  have "l1 * x / (h2 * z) \<le> a / b"
    using a b bpos apos by (intro frac_le) simp_all
  moreover have "a / b \<le> h1 * x / (l2 * z)"
    using a b bpos apos by (intro frac_le) simp_all
  ultimately show ?thesis
    by (simp add: bracket_def)
qed

lemma bracket_abs:
  assumes "bracket (1 - e) (1 + e) x y"
  shows "\<bar>y - x\<bar> \<le> e * x"
  using assms by (simp add: bracket_def abs_le_iff algebra_simps)

lemma loss_accuracy:
  assumes "0 \<le> F" "0 < T"
  shows "\<bar>f64_mul (f64_div (f64_of_int F) (f64_of_int T)) 100 - 100 * of_int F / of_int T\<bar>
         \<le> (100 * of_int F / of_int T) / 2 ^ 50"
proof -
  let ?l = "1 - 1 / 2 ^ 53 :: rat" and ?h = "1 + 1 / 2 ^ 53 :: rat"
  have F: "bracket ?l ?h (of_int F) (f64_of_int F)"
    unfolding f64_of_int_def using assms(1) by (intro round64_bracket) simp
  have T: "bracket ?l ?h (of_int T) (f64_of_int T)"
    unfolding f64_of_int_def using assms(2) by (intro round64_bracket) simp
  have q0: "bracket (?l / ?h) (?h / ?l) (of_int F / of_int T) (f64_of_int F / f64_of_int T)"
    using F T assms by (intro bracket_div) simp_all
  have Q: "0 \<le> (of_int F / of_int T :: rat)" using assms by simp
  have q: "bracket (?l / ?h * ?l) (?h / ?l * ?h) (of_int F / of_int T)
             (f64_div (f64_of_int F) (f64_of_int T))"
    unfolding f64_div_def using q0 Q by (intro bracket_round) simp_all
  have Q100: "0 \<le> (of_int F / of_int T * 100 :: rat)" using assms by simp
  have m0: "bracket (?l / ?h * ?l) (?h / ?l * ?h) (of_int F / of_int T * 100)
             (f64_div (f64_of_int F) (f64_of_int T) * 100)"
    using q by (intro bracket_mult_const) simp_all
  have m: "bracket (?l / ?h * ?l * ?l) (?h / ?l * ?h * ?h) (of_int F / of_int T * 100)
             (f64_mul (f64_div (f64_of_int F) (f64_of_int T)) 100)"
    unfolding f64_mul_def using m0 Q100 by (intro bracket_round) simp_all
  have "bracket (1 - 1 / 2 ^ 50) (1 + 1 / 2 ^ 50) (of_int F / of_int T * 100)
             (f64_mul (f64_div (f64_of_int F) (f64_of_int T)) 100)"
  proof (rule bracket_mono [OF m])
    show "0 \<le> (of_int F / of_int T * 100 :: rat)" by (rule Q100)
  qed simp_all
  from bracket_abs [OF this] show ?thesis by (simp add: mult.commute)
qed

lemma Seconds_bracket:
  assumes "0 < d"
  shows "bracket ((1 - 1 / 2 ^ 53) * (1 - 1 / 2 ^ 53) * (1 - 1 / 2 ^ 53))
                 ((1 + 1 / 2 ^ 53) * (1 + 1 / 2 ^ 53) * (1 + 1 / 2 ^ 53))
                 (of_int d / 1000000000) (Seconds d)"
proof -
  let ?l = "1 - 1 / 2 ^ 53 :: rat" and ?h = "1 + 1 / 2 ^ 53 :: rat"
  define q where "q = d div 1000000000"
  define r where "r = d mod 1000000000"
  have sd: "d sdiv Second = q" "d smod Second = r"
    using assms by (simp_all add: signed_divide_int_def signed_modulo_int_def Second_def q_def r_def)
  have q: "0 \<le> q" and r: "0 \<le> r" using assms by (simp_all add: q_def r_def pos_imp_zdiv_nonneg_iff)
  have "d = q * 1000000000 + r" by (simp add: q_def r_def)
  then have "(of_int d :: rat) = of_int q * 1000000000 + of_int r"
    by (metis of_int_add of_int_mult of_int_numeral)
  then have d: "(of_int d / 1000000000 :: rat) = of_int q + of_int r / 1000000000"
    by (simp add: field_simps)
  have "bracket ?l ?h (of_int q) (f64_of_int q)"
    unfolding f64_of_int_def using q by (intro round64_bracket) simp
  then have fq: "bracket (?l * ?l) (?h * ?h) (of_int q) (f64_of_int q)"
    using q by (elim bracket_mono) simp_all
  have "bracket ?l ?h (of_int r) (f64_of_int r)"
    unfolding f64_of_int_def using r by (intro round64_bracket) simp
  then have "bracket ?l ?h (of_int r / 1000000000) (f64_of_int r / 1000000000)"
    by (rule bracket_div_const) simp
  then have fr: "bracket (?l * ?l) (?h * ?h) (of_int r / 1000000000)
                   (f64_div (f64_of_int r) 1000000000)"
    unfolding f64_div_def using r by (intro bracket_round) simp_all
  have "bracket (?l * ?l) (?h * ?h) (of_int q + of_int r / 1000000000)
          (f64_of_int q + f64_div (f64_of_int r) 1000000000)"
    using fq fr by (rule bracket_add)
  then have "bracket (?l * ?l * ?l) (?h * ?h * ?h) (of_int q + of_int r / 1000000000)
          (f64_add (f64_of_int q) (f64_div (f64_of_int r) 1000000000))"
    unfolding f64_add_def using q r by (intro bracket_round) simp_all
  then show ?thesis
    by (simp only: Seconds_def sd d)
qed

lemma speed_accuracy:
  assumes "0 \<le> n" "0 < d"
  shows "\<bar>f64_div (f64_of_int n) (Seconds d) - of_int n / (of_int d / 1000000000)\<bar>
         \<le> of_int n / (of_int d / 1000000000) / 2 ^ 50"
proof -
  let ?l = "1 - 1 / 2 ^ 53 :: rat" and ?h = "1 + 1 / 2 ^ 53 :: rat"
  have S: "0 < (of_int d / 1000000000 :: rat)" using assms(2) by simp
  have X: "0 \<le> (of_int n / (of_int d / 1000000000) :: rat)" using assms by simp
  have n: "bracket ?l ?h (of_int n) (f64_of_int n)"
    unfolding f64_of_int_def using assms(1) by (intro round64_bracket) simp
  have "bracket (?l / (?h * ?h * ?h)) (?h / (?l * ?l * ?l))
          (of_int n / (of_int d / 1000000000)) (f64_of_int n / Seconds d)"
    using n Seconds_bracket [OF assms(2)] assms(1) S by (intro bracket_div) simp_all
  then have "bracket (?l / (?h * ?h * ?h) * ?l) (?h / (?l * ?l * ?l) * ?h)
          (of_int n / (of_int d / 1000000000)) (f64_div (f64_of_int n) (Seconds d))"
    unfolding f64_div_def using X by (intro bracket_round) simp_all
  then have "bracket (1 - 1 / 2 ^ 50) (1 + 1 / 2 ^ 50)
          (of_int n / (of_int d / 1000000000)) (f64_div (f64_of_int n) (Seconds d))"
    using X by (rule bracket_mono) simp_all
  from bracket_abs [OF this] show ?thesis by (simp add: mult.commute)
qed

section \<open>Running a sequence of calls\<close>

lemma run_Nil: "run [] s = s" by (simp add: run_def)
lemma run_Cons: "run (c # cs) s = run cs (step c s)" by (simp add: run_def)
lemma run_snoc: "run (cs @ [c]) s = step c (run cs s)" by (simp add: run_def)

section \<open>Frame of UpdateDevice\<close>

text \<open>
  Claim C10. UpdateDevice changes nothing of the Store but the Devices entry of the given
  IP; in particular the global LastUpdated keeps its value, whereas UpdateInterface and
  StorePingData set it to the time of the call.
\<close>

theorem UpdateDevice_frame:
  "(\<exists>d. UpdateDevice ip mac hostname now s = s\<lparr>Devices := (Devices s)(ip \<mapsto> d)\<rparr>)
   \<and> LastUpdated (UpdateDevice ip mac hostname now s) = LastUpdated s
   \<and> Interfaces (UpdateDevice ip mac hostname now s) = Interfaces s
   \<and> PingResults (UpdateDevice ip mac hostname now s) = PingResults s
   \<and> LastUpdated (UpdateInterface name rx tx prx ptx now' s) = now'
   \<and> LastUpdated (StorePingData host rtt success method now' s) = now'"
  by (auto simp: UpdateDevice_def UpdateInterface_def StorePingData_def Let_def
           split: option.splits)

section \<open>Sticky device fields\<close>

lemma firstNonEmpty_Cons:
  "firstNonEmpty (x # xs) = (if x = [] then firstNonEmpty xs else x)"
  by (simp add: firstNonEmpty_def)

lemma firstNonEmpty_twice:
  "firstNonEmpty (firstNonEmpty [a, b] # xs) = firstNonEmpty (a # b # xs)"
  by (simp add: firstNonEmpty_def)

lemma MACof_UpdateDevice:
  "MACof (UpdateDevice ip mac hostname now s) ip = firstNonEmpty [MACof s ip, mac]"
  by (auto simp: MACof_def UpdateDevice_def Let_def firstNonEmpty_def split: option.splits)

lemma HostnameOf_UpdateDevice:
  "HostnameOf (UpdateDevice ip mac hostname now s) ip = firstNonEmpty [HostnameOf s ip, hostname]"
  by (auto simp: HostnameOf_def UpdateDevice_def Let_def firstNonEmpty_def split: option.splits)

lemma MACof_deviceUpdates:
  "MACof (run (deviceUpdates ip us) s) ip = firstNonEmpty (MACof s ip # map fst us)"
proof (induction us arbitrary: s)
  case Nil
  show ?case by (simp add: deviceUpdates_def run_Nil firstNonEmpty_def)
next
  case (Cons u us)
  obtain mac hostname now where u: "u = (mac, hostname, now)" by (cases u)
  have "MACof (run (deviceUpdates ip (u # us)) s) ip
        = MACof (run (deviceUpdates ip us) (UpdateDevice ip mac hostname now s)) ip"
    by (simp add: u deviceUpdates_def run_Cons)
  also have "\<dots> = firstNonEmpty (firstNonEmpty [MACof s ip, mac] # map fst us)"
    by (simp add: Cons.IH MACof_UpdateDevice)
  also have "\<dots> = firstNonEmpty (MACof s ip # map fst (u # us))"
    by (simp add: firstNonEmpty_twice u)
  finally show ?case .
qed

lemma HostnameOf_deviceUpdates:
  "HostnameOf (run (deviceUpdates ip us) s) ip
   = firstNonEmpty (HostnameOf s ip # map (\<lambda>u. fst (snd u)) us)"
proof (induction us arbitrary: s)
  case Nil
  show ?case by (simp add: deviceUpdates_def run_Nil firstNonEmpty_def)
next
  case (Cons u us)
  obtain mac hostname now where u: "u = (mac, hostname, now)" by (cases u)
  have "HostnameOf (run (deviceUpdates ip (u # us)) s) ip
        = HostnameOf (run (deviceUpdates ip us) (UpdateDevice ip mac hostname now s)) ip"
    by (simp add: u deviceUpdates_def run_Cons)
  also have "\<dots> = firstNonEmpty (firstNonEmpty [HostnameOf s ip, hostname] # map (\<lambda>u. fst (snd u)) us)"
    by (simp add: Cons.IH HostnameOf_UpdateDevice)
  also have "\<dots> = firstNonEmpty (HostnameOf s ip # map (\<lambda>u. fst (snd u)) (u # us))"
    by (simp add: firstNonEmpty_twice u)
  finally show ?case .
qed

text \<open>
  Claim C6. Over any sequence of UpdateDevice calls on one IP, the MAC and the Hostname
  of the device are first-write-wins: each ends as the first non-empty value among the
  stored one and the incoming ones, in call order. So a non-empty field is never changed,
  by an empty value or by a different one, and an empty field takes the first non-empty
  incoming value.
\<close>

theorem UpdateDevice_sticky:
  "MACof (run (deviceUpdates ip us) s) ip = firstNonEmpty (MACof s ip # map fst us)
   \<and> HostnameOf (run (deviceUpdates ip us) s) ip
       = firstNonEmpty (HostnameOf s ip # map (\<lambda>u. fst (snd u)) us)
   \<and> (MACof s ip \<noteq> [] \<longrightarrow> MACof (run (deviceUpdates ip us) s) ip = MACof s ip)
   \<and> (HostnameOf s ip \<noteq> [] \<longrightarrow> HostnameOf (run (deviceUpdates ip us) s) ip = HostnameOf s ip)"
  by (simp add: MACof_deviceUpdates HostnameOf_deviceUpdates firstNonEmpty_Cons)

theorem UpdateDevice_sticky_witness:
  "MACof (UpdateDevice ''10.0.0.7'' ''aa:bb:cc:dd:ee:01'' ''printer'' 1 (NewStore 0)) ''10.0.0.7'' \<noteq> []
   \<and> HostnameOf (UpdateDevice ''10.0.0.7'' ''aa:bb:cc:dd:ee:01'' ''printer'' 1 (NewStore 0)) ''10.0.0.7'' \<noteq> []
   \<and> MACof (run (deviceUpdates ''10.0.0.7'' [(''aa:bb:cc:dd:ee:02'', ''other'', 2), ([], [], 3)])
        (UpdateDevice ''10.0.0.7'' ''aa:bb:cc:dd:ee:01'' ''printer'' 1 (NewStore 0))) ''10.0.0.7''
       = ''aa:bb:cc:dd:ee:01''
   \<and> HostnameOf (run (deviceUpdates ''10.0.0.7'' [(''aa:bb:cc:dd:ee:02'', ''other'', 2), ([], [], 3)])
        (UpdateDevice ''10.0.0.7'' ''aa:bb:cc:dd:ee:01'' ''printer'' 1 (NewStore 0))) ''10.0.0.7''
       = ''printer''"
proof -
  let ?s = "UpdateDevice ''10.0.0.7'' ''aa:bb:cc:dd:ee:01'' ''printer'' 1 (NewStore 0)"
  have m: "MACof ?s ''10.0.0.7'' = ''aa:bb:cc:dd:ee:01''"
    by (simp add: MACof_def UpdateDevice_def NewStore_def)
  have h: "HostnameOf ?s ''10.0.0.7'' = ''printer''"
    by (simp add: HostnameOf_def UpdateDevice_def NewStore_def)
  show ?thesis
    using UpdateDevice_sticky [where ip = "''10.0.0.7''"
      and us = "[(''aa:bb:cc:dd:ee:02'', ''other'', 2), ([], [], 3)]" and s = ?s]
    by (simp add: m h firstNonEmpty_def)
qed

section \<open>Packet loss\<close>

lemma loss_first:
  "f64_mul (f64_div (f64_of_int 0) (f64_of_int 1)) 100 = 0"
  "f64_mul (f64_div (f64_of_int 1) (f64_of_int 1)) 100 = 100"
  by (simp_all add: eval64)

lemma loss_half: "f64_mul (f64_div (f64_of_int 1) (f64_of_int 2)) 100 = 50"
  by (simp add: eval64)

lemma loss_third:
  "f64_mul (f64_div (f64_of_int 1) (f64_of_int 3)) 100 = 2345624805922133 / 70368744177664"
  by (simp add: eval64)

lemma recordExisting_counts:
  "TotalPings (recordExisting p rtt success now) = TotalPings p + 1"
  "FailedPings (recordExisting p rtt success now) = FailedPings p + (if success then 0 else 1)"
  "PacketLoss (recordExisting p rtt success now)
     = f64_mul (f64_div (f64_of_int (FailedPings p + (if success then 0 else 1)))
                        (f64_of_int (TotalPings p + 1))) 100"
  by (simp_all add: recordExisting_def Let_def split: prod.splits)

lemma counted_StorePingData:
  assumes "counted bs (PingResults s h)"
  shows "counted (bs @ [success]) (PingResults (StorePingData h rtt success method now s) h)"
  using assms
  by (auto simp: counted_def StorePingData_def Let_def recordExisting_counts failures_def lossOf_def
           loss_first split: option.splits)

lemma counted_UpdatePing:
  assumes "counted bs (PingResults s h)"
  shows "counted (bs @ [success]) (PingResults (UpdatePing h rtt success now s) h)"
  using assms
  by (auto simp: counted_def UpdatePing_def Let_def recordExisting_counts failures_def lossOf_def
           loss_first split: option.splits)

lemma PingResults_step_other:
  "probeOn h c = [] \<Longrightarrow> PingResults (step c s) h = PingResults s h"
  by (cases c)
     (auto simp: StorePingData_def UpdatePing_def UpdateInterface_def UpdateDevice_def Let_def
           split: option.splits if_splits)

lemma counted_step:
  assumes "counted bs (PingResults s h)"
  shows "counted (bs @ probeOn h c) (PingResults (step c s) h)"
proof (cases "probeOn h c = []")
  case True
  then show ?thesis using assms by (simp add: PingResults_step_other)
next
  case False
  then show ?thesis using assms
    by (cases c) (auto simp: counted_StorePingData counted_UpdatePing split: if_splits)
qed

lemma counted_run:
  "counted (probes h cs) (PingResults (run cs (NewStore t0)) h)"
proof (induction cs rule: rev_induct)
  case Nil
  show ?case by (simp add: run_Nil probes_def counted_def NewStore_def)
next
  case (snoc c cs)
  have "probes h (cs @ [c]) = probes h cs @ probeOn h c" by (simp add: probes_def)
  with counted_step [OF snoc.IH, of c] show ?case by (simp add: run_snoc)
qed

text \<open>
  Claim C1, amended. After any sequence of calls on a new Store, a target that has been
  probed is stored, its TotalPings is the number of probes recorded for it, its
  FailedPings the number of failed ones, and its PacketLoss is the double
  \<open>float64(FailedPings) / float64(TotalPings) * 100\<close>: the quotient of the counters
  rounded to a double, times 100, rounded again. It differs from
  100 * FailedPings / TotalPings by at most that number times \<open>2^-50\<close>. The first sample
  of a target stores 1 probe and a loss of 0 after a success, 100 after a failure.
\<close>

theorem packetLoss_rounded:
  "(probes h cs \<noteq> [] \<longrightarrow>
      (\<exists>p. PingResults (run cs (NewStore t0)) h = Some p
         \<and> TotalPings p = int (length (probes h cs))
         \<and> FailedPings p = failures (probes h cs)
         \<and> PacketLoss p
             = f64_mul (f64_div (f64_of_int (FailedPings p)) (f64_of_int (TotalPings p))) 100
         \<and> \<bar>PacketLoss p - 100 * of_int (FailedPings p) / of_int (TotalPings p)\<bar>
             \<le> 100 * of_int (FailedPings p) / of_int (TotalPings p) / 2 ^ 50))
   \<and> (PingResults s h = None \<longrightarrow>
      (\<exists>p. PingResults (StorePingData h rtt success meth now s) h = Some p
         \<and> TotalPings p = 1 \<and> FailedPings p = (if success then 0 else 1)
         \<and> PacketLoss p = (if success then 0 else 100)))"
proof -
  have c: "counted (probes h cs) (PingResults (run cs (NewStore t0)) h)"
    by (rule counted_run)
  have "probes h cs \<noteq> [] \<longrightarrow>
      (\<exists>p. PingResults (run cs (NewStore t0)) h = Some p
         \<and> TotalPings p = int (length (probes h cs))
         \<and> FailedPings p = failures (probes h cs)
         \<and> PacketLoss p
             = f64_mul (f64_div (f64_of_int (FailedPings p)) (f64_of_int (TotalPings p))) 100
         \<and> \<bar>PacketLoss p - 100 * of_int (FailedPings p) / of_int (TotalPings p)\<bar>
             \<le> 100 * of_int (FailedPings p) / of_int (TotalPings p) / 2 ^ 50)"
  proof
    assume ne: "probes h cs \<noteq> []"
    with c obtain p where p: "PingResults (run cs (NewStore t0)) h = Some p"
      and t: "TotalPings p = int (length (probes h cs))"
      and f: "FailedPings p = failures (probes h cs)"
      and l: "PacketLoss p = lossOf p"
      by (auto simp: counted_def split: option.splits)
    have "0 \<le> FailedPings p" by (simp add: f failures_def)
    moreover have "0 < TotalPings p" using ne by (simp add: t)
    ultimately have
      "\<bar>lossOf p - 100 * of_int (FailedPings p) / of_int (TotalPings p)\<bar>
         \<le> 100 * of_int (FailedPings p) / of_int (TotalPings p) / 2 ^ 50"
      unfolding lossOf_def by (rule loss_accuracy)
    then have acc: "\<bar>PacketLoss p - 100 * of_int (FailedPings p) / of_int (TotalPings p)\<bar>
         \<le> 100 * of_int (FailedPings p) / of_int (TotalPings p) / 2 ^ 50"
      by (simp only: l)
    have "PacketLoss p
        = f64_mul (f64_div (f64_of_int (FailedPings p)) (f64_of_int (TotalPings p))) 100"
      by (simp only: l lossOf_def)
    with p t f acc show "\<exists>p. PingResults (run cs (NewStore t0)) h = Some p
         \<and> TotalPings p = int (length (probes h cs))
         \<and> FailedPings p = failures (probes h cs)
         \<and> PacketLoss p
             = f64_mul (f64_div (f64_of_int (FailedPings p)) (f64_of_int (TotalPings p))) 100
         \<and> \<bar>PacketLoss p - 100 * of_int (FailedPings p) / of_int (TotalPings p)\<bar>
             \<le> 100 * of_int (FailedPings p) / of_int (TotalPings p) / 2 ^ 50"
      by blast
  qed
  moreover have "PingResults s h = None \<longrightarrow>
      (\<exists>p. PingResults (StorePingData h rtt success meth now s) h = Some p
         \<and> TotalPings p = 1 \<and> FailedPings p = (if success then 0 else 1)
         \<and> PacketLoss p = (if success then 0 else 100))"
    by (simp add: StorePingData_def)
  ultimately show ?thesis by blast
qed

theorem packetLoss_rounded_witness:
  "probes ''8.8.8.8'' [CallStorePingData ''8.8.8.8'' 20000000 True ''ICMP'' 0,
                        CallStorePingData ''8.8.8.8'' 0 False ''FAILED'' 5000000000] \<noteq> []
   \<and> (\<exists>p. PingResults (run [CallStorePingData ''8.8.8.8'' 20000000 True ''ICMP'' 0,
                              CallStorePingData ''8.8.8.8'' 0 False ''FAILED'' 5000000000]
                         (NewStore 0)) ''8.8.8.8'' = Some p
         \<and> TotalPings p = 2 \<and> FailedPings p = 1 \<and> PacketLoss p = 50)
   \<and> PingResults (NewStore 0) ''8.8.8.8'' = None
   \<and> (\<exists>p. PingResults (StorePingData ''8.8.8.8'' 20000000 True ''ICMP'' 0 (NewStore 0)) ''8.8.8.8'' = Some p
         \<and> TotalPings p = 1 \<and> FailedPings p = 0 \<and> PacketLoss p = 0)"
proof -
  have a: "probes ''8.8.8.8'' [CallStorePingData ''8.8.8.8'' 20000000 True ''ICMP'' 0,
                        CallStorePingData ''8.8.8.8'' 0 False ''FAILED'' 5000000000] = [True, False]"
    by (simp add: probes_def)
  have b: "PingResults (NewStore 0) ''8.8.8.8'' = None"
    by (simp add: NewStore_def)
  show ?thesis
    using packetLoss_rounded [where h = "''8.8.8.8''"
        and cs = "[CallStorePingData ''8.8.8.8'' 20000000 True ''ICMP'' 0,
                   CallStorePingData ''8.8.8.8'' 0 False ''FAILED'' 5000000000]"
        and ?t0.0 = 0 and s = "NewStore 0" and rtt = 20000000 and success = True
        and meth = "''ICMP''" and now = 0]
    by (auto simp: a b failures_def loss_half)
qed

text \<open>
  Two successful probes and a failed one: the stored loss is the double
  33.33333333333333, which is 2345624805922133 / 2^46 and not 100 / 3.
\<close>

theorem packetLoss_third_counterexample:
  "map_option (\<lambda>p. (TotalPings p, FailedPings p, PacketLoss p))
      (PingResults (run [CallStorePingData ''8.8.8.8'' 20000000 True ''ICMP'' 0,
                         CallStorePingData ''8.8.8.8'' 21000000 True ''ICMP'' 5000000000,
                         CallStorePingData ''8.8.8.8'' 0 False ''FAILED'' 10000000000]
                    (NewStore 0)) ''8.8.8.8'')
     = Some (3, 1, 2345624805922133 / 70368744177664)
   \<and> (2345624805922133 / 70368744177664 :: rat) \<noteq> 100 * 1 / 3"
  by (simp add: run_def StorePingData_def NewStore_def recordExisting_counts loss_third)

section \<open>Bounded histories\<close>

lemma appendBounded_lastN:
  "length h \<le> MaxHistoryPoints \<Longrightarrow> appendBounded h x = lastN MaxHistoryPoints (h @ [x])"
proof (cases "length h = MaxHistoryPoints")
  case True
  then show ?thesis by (simp add: appendBounded_def lastN_def Let_def)
next
  case False
  assume "length h \<le> MaxHistoryPoints"
  with False have "length h < MaxHistoryPoints" by simp
  then show ?thesis by (simp add: appendBounded_def lastN_def Let_def)
qed

lemma lastN_length: "length (lastN n xs) \<le> n"
  by (simp add: lastN_def)

lemma lastN_all: "length xs \<le> n \<Longrightarrow> lastN n xs = xs"
  by (simp add: lastN_def)

lemma lastN_append:
  "lastN n (lastN n xs @ ys) = lastN n (xs @ ys)"
  by (cases "length xs \<le> n") (auto simp: lastN_def add.commute)

lemma pingHistory_StorePingData:
  "length (pingHistory s host) \<le> MaxHistoryPoints \<Longrightarrow>
   pingHistory (StorePingData host rtt success method now s) host
     = lastN MaxHistoryPoints
         (pingHistory s host @ [\<lparr>pp_Timestamp = now, Latency = rtt, Success = success\<rparr>])"
  by (auto simp: pingHistory_def StorePingData_def recordExisting_def Let_def
                 appendBounded_lastN lastN_all MaxHistoryPoints_def
           split: option.splits prod.splits)

lemma pingHistory_run:
  "length (pingHistory s host) \<le> MaxHistoryPoints \<Longrightarrow>
   pingHistory (run (pingCalls host ps) s) host
     = lastN MaxHistoryPoints (pingHistory s host @ pingPoints ps)"
proof (induction ps rule: rev_induct)
  case Nil
  then show ?case by (simp add: pingCalls_def pingPoints_def run_Nil lastN_all)
next
  case (snoc p ps)
  obtain rtt success meth now where p: "p = (rtt, success, meth, now)"
    by (cases p)
  let ?s = "run (pingCalls host ps) s"
  have len: "length (pingHistory ?s host) \<le> MaxHistoryPoints"
    using snoc by (simp add: lastN_length)
  have "pingHistory (run (pingCalls host (ps @ [p])) s) host
        = pingHistory (StorePingData host rtt success meth now ?s) host"
    by (simp add: pingCalls_def p run_snoc)
  also have "\<dots> = lastN MaxHistoryPoints
      (pingHistory ?s host @ [\<lparr>pp_Timestamp = now, Latency = rtt, Success = success\<rparr>])"
    by (rule pingHistory_StorePingData [OF len])
  also have "\<dots> = lastN MaxHistoryPoints (pingHistory s host @ pingPoints (ps @ [p]))"
    using snoc by (simp add: lastN_append pingPoints_def p)
  finally show ?case .
qed

lemma ifaceHistory_UpdateInterface:
  "length (ifaceHistory s name) \<le> MaxHistoryPoints \<Longrightarrow>
   ifaceHistory (UpdateInterface name rx tx prx ptx now s) name
     = lastN MaxHistoryPoints (ifaceHistory s name @ ifacePoints name [(rx, tx, prx, ptx, now)] s)"
  by (auto simp: ifaceHistory_def UpdateInterface_def Let_def appendBounded_lastN lastN_all
           split: option.splits)

lemma ifacePoints_append:
  "ifacePoints name (us @ vs) s
   = ifacePoints name us s @ ifacePoints name vs (run (ifaceCalls name us) s)"
proof (induction us arbitrary: s)
  case Nil
  show ?case by (simp add: ifaceCalls_def run_Nil)
next
  case (Cons u us)
  obtain rx tx prx ptx now where u: "u = (rx, tx, prx, ptx, now)"
    by (cases u)
  show ?case
    by (simp add: u Cons.IH ifaceCalls_def run_Cons Let_def)
qed

lemma ifaceHistory_run:
  "length (ifaceHistory s name) \<le> MaxHistoryPoints \<Longrightarrow>
   ifaceHistory (run (ifaceCalls name us) s) name
     = lastN MaxHistoryPoints (ifaceHistory s name @ ifacePoints name us s)"
proof (induction us rule: rev_induct)
  case Nil
  then show ?case by (simp add: ifaceCalls_def run_Nil lastN_all)
next
  case (snoc u us)
  obtain rx tx prx ptx now where u: "u = (rx, tx, prx, ptx, now)"
    by (cases u)
  let ?s = "run (ifaceCalls name us) s"
  have len: "length (ifaceHistory ?s name) \<le> MaxHistoryPoints"
    using snoc by (simp add: lastN_length)
  have "ifaceHistory (run (ifaceCalls name (us @ [u])) s) name
        = ifaceHistory (UpdateInterface name rx tx prx ptx now ?s) name"
    by (simp add: ifaceCalls_def u run_snoc)
  also have "\<dots> = lastN MaxHistoryPoints
      (ifaceHistory ?s name @ ifacePoints name [(rx, tx, prx, ptx, now)] ?s)"
    by (rule ifaceHistory_UpdateInterface [OF len])
  also have "\<dots> = lastN MaxHistoryPoints (ifaceHistory s name @ ifacePoints name (us @ [u]) s)"
    using snoc.IH [OF snoc.prems]
    by (simp only: lastN_append ifacePoints_append u append_assoc)
  finally show ?case .
qed

lemma Interfaces_defined:
  "Interfaces (UpdateInterface name rx tx prx ptx now s) name \<noteq> None"
  by (simp add: UpdateInterface_def Let_def split: option.splits)

lemma length_ifacePoints:
  "length (ifacePoints name us s)
   = (if Interfaces s name = None then length us - 1 else length us)"
proof (induction us arbitrary: s)
  case Nil
  show ?case by simp
next
  case (Cons u us)
  obtain rx tx prx ptx now where u: "u = (rx, tx, prx, ptx, now)"
    by (cases u)
  show ?case
    using Interfaces_defined [of name rx tx prx ptx now s]
    by (auto simp: u Cons.IH Let_def split: option.splits)
qed

text \<open>
  Claim C2. Over any sequence of UpdateInterface calls on one name, and of StorePingData
  calls on one host, from a store whose history is within the bound: the history is the
  last MaxHistoryPoints = 100 of the points appended so far, in append order, so it never
  holds more than 100 entries and the oldest entry is the one dropped.
\<close>

theorem history_bounded_fifo:
  "length (ifaceHistory s name) \<le> MaxHistoryPoints \<Longrightarrow>
   length (pingHistory s host) \<le> MaxHistoryPoints \<Longrightarrow>
     ifaceHistory (run (ifaceCalls name us) s) name
       = lastN MaxHistoryPoints (ifaceHistory s name @ ifacePoints name us s)
   \<and> length (ifaceHistory (run (ifaceCalls name us) s) name) \<le> 100
   \<and> length (ifacePoints name us s)
       = (if Interfaces s name = None then length us - 1 else length us)
   \<and> pingHistory (run (pingCalls host ps) s) host
       = lastN MaxHistoryPoints (pingHistory s host @ pingPoints ps)
   \<and> length (pingHistory (run (pingCalls host ps) s) host) \<le> 100
   \<and> length (pingPoints ps) = length ps"
proof -
  assume a: "length (ifaceHistory s name) \<le> MaxHistoryPoints"
    and b: "length (pingHistory s host) \<le> MaxHistoryPoints"
  have c: "length (lastN MaxHistoryPoints (ifaceHistory s name @ ifacePoints name us s)) \<le> 100"
    using lastN_length [of MaxHistoryPoints] by (simp add: MaxHistoryPoints_def)
  have d: "length (lastN MaxHistoryPoints (pingHistory s host @ pingPoints ps)) \<le> 100"
    using lastN_length [of MaxHistoryPoints] by (simp add: MaxHistoryPoints_def)
  show ?thesis
    using c d
    by (simp add: ifaceHistory_run [OF a] pingHistory_run [OF b] length_ifacePoints)
      (simp add: pingPoints_def)
qed


theorem history_bounded_fifo_witness:
  "length (ifaceHistory (NewStore 0) ''eth0'') \<le> MaxHistoryPoints
   \<and> length (pingHistory (NewStore 0) ''1.1.1.1'') \<le> MaxHistoryPoints
   \<and> pingHistory (run (pingCalls ''1.1.1.1''
          ((11, True, ''ICMP'', 1) # (0, False, ''FAILED'', 2) # replicate 100 (13, True, ''TCP:80'', 3)))
          (NewStore 0)) ''1.1.1.1''
       = replicate 100 \<lparr>pp_Timestamp = 3, Latency = 13, Success = True\<rparr>
   \<and> length (ifaceHistory (run (ifaceCalls ''eth0'' (replicate 150 (1000, 500, 10, 5, 7)))
          (NewStore 0)) ''eth0'') \<le> 100"
proof -
  have a: "ifaceHistory (NewStore 0) ''eth0'' = []"
    by (simp add: ifaceHistory_def NewStore_def)
  have b: "pingHistory (NewStore 0) ''1.1.1.1'' = []"
    by (simp add: pingHistory_def NewStore_def)
  show ?thesis
    using history_bounded_fifo [where s = "NewStore 0" and name = "''eth0''"
        and host = "''1.1.1.1''" and us = "replicate 150 (1000, 500, 10, 5, 7)"
        and ps = "(11, True, ''ICMP'', 1) # (0, False, ''FAILED'', 2)
                  # replicate 100 (13, True, ''TCP:80'', 3)"]
    by (simp add: a b pingPoints_def lastN_def MaxHistoryPoints_def)
qed

section \<open>Average latency\<close>

lemma int64_add_left: "int64 (int64 a + b) = int64 (a + b)"
proof -
  have "(int64 a + b + 2 ^ 63) mod 2 ^ 64 = ((a + 2 ^ 63) mod 2 ^ 64 + b) mod 2 ^ 64"
    by (simp add: int64_def)
  also have "\<dots> = (a + 2 ^ 63 + b) mod 2 ^ 64"
    by (rule mod_add_left_eq)
  finally show ?thesis by (simp add: int64_def algebra_simps)
qed

lemma int64_id: "- (2 ^ 63) \<le> x \<Longrightarrow> x < 2 ^ 63 \<Longrightarrow> int64 x = x"
  by (simp add: int64_def)

lemma rescan_all_success:
  "\<forall>p \<in> set ps. Success p \<Longrightarrow>
   rescan ps tot cnt
     = (if ps = [] then tot else int64 (tot + sum_list (map Latency ps)), cnt + int (length ps))"
proof (induction ps arbitrary: tot cnt)
  case Nil
  show ?case by simp
next
  case (Cons p ps)
  then show ?case
    by (simp add: int64_add_left add.assoc)
qed

lemma pingPoints_success:
  "\<forall>p \<in> set ps. fst (snd p) \<Longrightarrow> \<forall>q \<in> set (pingPoints ps). Success q"
  by (auto simp: pingPoints_def)

lemma sum_Latency_pingPoints:
  "sum_list (map Latency (pingPoints ps)) = sum_list (map fst ps)"
  by (induction ps) (auto simp: pingPoints_def)

lemma AvgLatency_recordExisting:
  "ps_History p \<noteq> [] \<Longrightarrow> \<forall>q \<in> set (ps_History p). Success q \<Longrightarrow>
   AvgLatency (recordExisting p rtt True now)
     = int64 (rtt + sum_list (map Latency (ps_History p))) sdiv (1 + int (length (ps_History p)))"
  by (simp add: recordExisting_def Let_def rescan_all_success)

text \<open>
  Claim C4, amended. After a sequence of only-successful StorePingData samples on a host
  that was not stored, of length at most MaxHistoryPoints and with a sum of latencies
  that fits an int64, the stored AvgLatency is the sum of the latencies divided by their
  number with Go's integer division: the arithmetic mean truncated towards zero to whole
  nanoseconds.
\<close>

theorem avgLatency_truncated_mean:
  assumes new: "PingResults s host = None"
    and ne: "ps \<noteq> []"
    and len: "length ps \<le> MaxHistoryPoints"
    and ok: "\<forall>p \<in> set ps. fst (snd p)"
    and lo: "- (2 ^ 63) \<le> sum_list (map fst ps)"
    and hi: "sum_list (map fst ps) < 2 ^ 63"
  shows "avgOf (run (pingCalls host ps) s) host
         = Some (sum_list (map fst ps) sdiv int (length ps))"
proof -
  obtain qs q where ps: "ps = qs @ [q]"
    using ne by (cases ps rule: rev_cases) auto
  obtain rtt success meth now where q: "q = (rtt, success, meth, now)"
    by (cases q)
  have success: "success" using ok by (simp add: ps q)
  let ?s = "run (pingCalls host qs) s"
  have run: "run (pingCalls host ps) s = StorePingData host rtt True meth now ?s"
    using success by (simp add: ps q pingCalls_def run_snoc)
  have empty: "pingHistory s host = []"
    by (simp add: pingHistory_def new)
  have hist: "pingHistory ?s host = pingPoints qs"
    using len by (simp add: pingHistory_run empty lastN_all ps pingPoints_def)
  show ?thesis
  proof (cases "qs = []")
    case True
    then have "avgOf (run (pingCalls host ps) s) host = Some rtt"
      unfolding run by (simp add: avgOf_def pingCalls_def run_Nil StorePingData_def new)
    then show ?thesis
      using True by (simp add: ps q)
  next
    case False
    then have "pingHistory ?s host \<noteq> []"
      by (simp add: hist pingPoints_def)
    then obtain p where p: "PingResults ?s host = Some p" and hp: "ps_History p = pingPoints qs"
      using hist by (auto simp: pingHistory_def split: option.splits)
    have allok: "\<forall>x \<in> set (ps_History p). Success x"
      unfolding hp using ok by (intro pingPoints_success) (simp add: ps)
    have nonempty: "ps_History p \<noteq> []"
      using False by (simp add: hp pingPoints_def)
    have total: "rtt + sum_list (map Latency (ps_History p)) = sum_list (map fst ps)"
      by (simp add: hp sum_Latency_pingPoints ps q)
    have count: "1 + int (length (ps_History p)) = int (length ps)"
      by (simp add: hp pingPoints_def ps)
    have "avgOf (run (pingCalls host ps) s) host
          = Some (AvgLatency (recordExisting p rtt True now))"
      by (simp add: run avgOf_def StorePingData_def p)
    also have "\<dots> = Some (int64 (sum_list (map fst ps)) sdiv int (length ps))"
      by (simp only: AvgLatency_recordExisting [OF nonempty allok] total count)
    finally show ?thesis
      by (simp add: int64_id [OF lo hi])
  qed
qed

theorem avgLatency_truncated_mean_witness:
  "PingResults (NewStore 0) ''1.1.1.1'' = None
   \<and> avgOf (run (pingCalls ''1.1.1.1''
        [(20, True, ''ICMP'', 1), (31, True, ''ICMP'', 2), (40, True, ''TCP:80'', 3)])
        (NewStore 0)) ''1.1.1.1'' = Some 30"
proof -
  have a: "PingResults (NewStore 0) ''1.1.1.1'' = None"
    by (simp add: NewStore_def)
  show ?thesis
    using avgLatency_truncated_mean [where s = "NewStore 0" and host = "''1.1.1.1''"
        and ps = "[(20, True, ''ICMP'', 1), (31, True, ''ICMP'', 2), (40, True, ''TCP:80'', 3)]"]
    by (simp add: a MaxHistoryPoints_def signed_divide_int_def)
qed

text \<open>
  Two successful samples of 1 ns and 2 ns store an average of 1 ns; their arithmetic
  mean is 3/2 ns.
\<close>

theorem avgLatency_mean_counterexample:
  "avgOf (run (pingCalls ''1.1.1.1'' [(1, True, ''ICMP'', 1), (2, True, ''ICMP'', 2)])
        (NewStore 0)) ''1.1.1.1'' = Some 1
   \<and> map_option rat_of_int
         (avgOf (run (pingCalls ''1.1.1.1'' [(1, True, ''ICMP'', 1), (2, True, ''ICMP'', 2)])
            (NewStore 0)) ''1.1.1.1'') \<noteq> Some ((1 + 2) / 2)"
  by (simp add: avgOf_def pingCalls_def run_def StorePingData_def NewStore_def
        recordExisting_def Let_def appendBounded_def MaxHistoryPoints_def int64_def
        signed_divide_int_def)

section \<open>Interface speed\<close>

lemma Seconds_1s: "Seconds (Sub 1000000000 0) = 1"
  by (simp add: Seconds_def Sub_def Second_def signed_divide_int_def signed_modulo_int_def eval64)

lemma Seconds_300ms: "Seconds (Sub 300000000 0) = 5404319552844595 / 18014398509481984"
  by (simp add: Seconds_def Sub_def Second_def signed_divide_int_def signed_modulo_int_def eval64)

lemma speed_values:
  "f64_div (f64_of_int 2000) 1 = 2000"
  "f64_div (f64_of_int 1000) 1 = 1000"
  "f64_div (f64_of_int 18446744073709549616) 1 = 18446744073709549568"
  "f64_div (f64_of_int 18446744073709550616) 1 = 18446744073709551616"
  "f64_div (f64_of_int 1) (5404319552844595 / 18014398509481984)
     = 7505999378950827 / 2251799813685248"
  "f64_div (f64_of_int 2) (5404319552844595 / 18014398509481984)
     = 7505999378950827 / 1125899906842624"
  by (simp_all add: eval64)

text \<open>
  Claim C7, amended. An update of a stored interface at a later clock reading, with
  counters that have not gone down, stores for each direction the double
  \<open>float64(newBytes - oldBytes) / elapsed.Seconds()\<close>: the difference of the counters
  converted to a double, divided by the elapsed seconds as a double, the quotient rounded.
  The elapsed seconds are positive, and the stored speed differs from
  (newBytes - oldBytes) / (elapsed nanoseconds / 10^9) by at most that number times
  \<open>2^-50\<close>.
\<close>

theorem UpdateInterface_speed:
  assumes "Interfaces s name = Some iface" and "LastCheck iface < now"
    and "BytesRx iface \<le> rx" and "BytesTx iface \<le> tx"
  shows "0 < Seconds (Sub now (LastCheck iface))
       \<and> speedsOf (UpdateInterface name rx tx prx ptx now s) name
         = Some (f64_div (f64_of_int (uint rx - uint (BytesRx iface)))
                         (Seconds (Sub now (LastCheck iface))),
                 f64_div (f64_of_int (uint tx - uint (BytesTx iface)))
                         (Seconds (Sub now (LastCheck iface))))
       \<and> \<bar>f64_div (f64_of_int (uint rx - uint (BytesRx iface)))
                  (Seconds (Sub now (LastCheck iface)))
          - of_int (uint rx - uint (BytesRx iface))
            / (of_int (Sub now (LastCheck iface)) / 1000000000)\<bar>
         \<le> of_int (uint rx - uint (BytesRx iface))
            / (of_int (Sub now (LastCheck iface)) / 1000000000) / 2 ^ 50
       \<and> \<bar>f64_div (f64_of_int (uint tx - uint (BytesTx iface)))
                  (Seconds (Sub now (LastCheck iface)))
          - of_int (uint tx - uint (BytesTx iface))
            / (of_int (Sub now (LastCheck iface)) / 1000000000)\<bar>
         \<le> of_int (uint tx - uint (BytesTx iface))
            / (of_int (Sub now (LastCheck iface)) / 1000000000) / 2 ^ 50"
proof -
  have d: "0 < Sub now (LastCheck iface)"
    using assms(2) by (rule Sub_pos)
  have pos: "0 < Seconds (Sub now (LastCheck iface))"
    using d by (rule Seconds_pos)
  have rx: "uint (rx - BytesRx iface) = uint rx - uint (BytesRx iface)"
    using uint_sub_if' [of rx "BytesRx iface"] assms(3) by (simp add: word_le_def)
  have tx: "uint (tx - BytesTx iface) = uint tx - uint (BytesTx iface)"
    using uint_sub_if' [of tx "BytesTx iface"] assms(4) by (simp add: word_le_def)
  have "Interfaces (UpdateInterface name rx tx prx ptx now s) name
        = Some (iface\<lparr>SpeedRx := f64_div (f64_of_int (uint (rx - BytesRx iface)))
                                   (Seconds (Sub now (LastCheck iface))),
                        SpeedTx := f64_div (f64_of_int (uint (tx - BytesTx iface)))
                                   (Seconds (Sub now (LastCheck iface))),
                        History := appendBounded (History iface)
                           \<lparr>dp_Timestamp = now, dp_BytesRx = rx, dp_BytesTx = tx,
                            dp_SpeedRx = f64_div (f64_of_int (uint (rx - BytesRx iface)))
                                           (Seconds (Sub now (LastCheck iface))),
                            dp_SpeedTx = f64_div (f64_of_int (uint (tx - BytesTx iface)))
                                           (Seconds (Sub now (LastCheck iface)))\<rparr>,
                        BytesRx := rx, BytesTx := tx, PacketsRx := prx, PacketsTx := ptx,
                        LastCheck := now\<rparr>)"
    using pos by (simp add: UpdateInterface_def assms(1) Let_def)
  then have "speedsOf (UpdateInterface name rx tx prx ptx now s) name
         = Some (f64_div (f64_of_int (uint (rx - BytesRx iface)))
                         (Seconds (Sub now (LastCheck iface))),
                 f64_div (f64_of_int (uint (tx - BytesTx iface)))
                         (Seconds (Sub now (LastCheck iface))))"
    by (simp add: speedsOf_def)
  then have sp: "speedsOf (UpdateInterface name rx tx prx ptx now s) name
         = Some (f64_div (f64_of_int (uint rx - uint (BytesRx iface)))
                         (Seconds (Sub now (LastCheck iface))),
                 f64_div (f64_of_int (uint tx - uint (BytesTx iface)))
                         (Seconds (Sub now (LastCheck iface))))"
    by (simp only: rx tx)
  have "0 \<le> uint (rx - BytesRx iface)" by (rule uint_ge_0)
  then have "0 \<le> uint rx - uint (BytesRx iface)" by (simp only: rx)
  then have arx: "\<bar>f64_div (f64_of_int (uint rx - uint (BytesRx iface)))
                  (Seconds (Sub now (LastCheck iface)))
          - of_int (uint rx - uint (BytesRx iface))
            / (of_int (Sub now (LastCheck iface)) / 1000000000)\<bar>
         \<le> of_int (uint rx - uint (BytesRx iface))
            / (of_int (Sub now (LastCheck iface)) / 1000000000) / 2 ^ 50"
    using d by (rule speed_accuracy)
  have "0 \<le> uint (tx - BytesTx iface)" by (rule uint_ge_0)
  then have "0 \<le> uint tx - uint (BytesTx iface)" by (simp only: tx)
  then have atx: "\<bar>f64_div (f64_of_int (uint tx - uint (BytesTx iface)))
                  (Seconds (Sub now (LastCheck iface)))
          - of_int (uint tx - uint (BytesTx iface))
            / (of_int (Sub now (LastCheck iface)) / 1000000000)\<bar>
         \<le> of_int (uint tx - uint (BytesTx iface))
            / (of_int (Sub now (LastCheck iface)) / 1000000000) / 2 ^ 50"
    using d by (rule speed_accuracy)
  from pos sp arx atx show ?thesis by (intro conjI)
qed

theorem UpdateInterface_speed_witness:
  "Interfaces (UpdateInterface ''eth0'' 1000 500 10 5 0 (NewStore 0)) ''eth0''
     = Some \<lparr>Name = ''eth0'', BytesRx = 1000, BytesTx = 500, PacketsRx = 10, PacketsTx = 5,
             SpeedRx = 0, SpeedTx = 0, History = [], LastCheck = 0\<rparr>
   \<and> speedsOf (UpdateInterface ''eth0'' 3000 1500 30 15 1000000000
        (UpdateInterface ''eth0'' 1000 500 10 5 0 (NewStore 0))) ''eth0'' = Some (2000, 1000)"
proof -
  have a: "Interfaces (UpdateInterface ''eth0'' 1000 500 10 5 0 (NewStore 0)) ''eth0''
     = Some \<lparr>Name = ''eth0'', BytesRx = 1000, BytesTx = 500, PacketsRx = 10, PacketsTx = 5,
             SpeedRx = 0, SpeedTx = 0, History = [], LastCheck = 0\<rparr>"
    by (simp add: UpdateInterface_def NewStore_def)
  show ?thesis
    using UpdateInterface_speed [OF a, of 1000000000 3000 1500 30 15]
    by (simp add: a Seconds_1s speed_values)
qed

text \<open>
  A counter reset, rx 3000 to 1000 and tx 1500 to 500 one second apart: the stored speeds
  are the doubles 2^64 - 2048 and 2^64, not negative. And without a reset, 1 and 2 bytes
  in 300 ms: the stored speeds are the doubles 3.3333333333333335 and 6.666666666666667,
  not 10 / 3 and 20 / 3.
\<close>

theorem UpdateInterface_speed_counterexample:
  "speedsOf (UpdateInterface ''eth0'' 1000 500 30 15 1000000000
        (UpdateInterface ''eth0'' 3000 1500 10 5 0 (NewStore 0))) ''eth0''
     = Some (18446744073709549568, 18446744073709551616)
   \<and> \<not> (18446744073709549568 :: rat) < 0
   \<and> (18446744073709549568 :: rat) \<noteq> (1000 - 3000) / 1
   \<and> speedsOf (UpdateInterface ''eth0'' 1001 502 30 15 300000000
        (UpdateInterface ''eth0'' 1000 500 10 5 0 (NewStore 0))) ''eth0''
     = Some (7505999378950827 / 2251799813685248, 7505999378950827 / 1125899906842624)
   \<and> (7505999378950827 / 2251799813685248 :: rat) \<noteq> (1001 - 1000) / (3 / 10)
   \<and> (7505999378950827 / 1125899906842624 :: rat) \<noteq> (502 - 500) / (3 / 10)"
  by (simp add: speedsOf_def UpdateInterface_def NewStore_def Let_def appendBounded_def
        Seconds_1s Seconds_300ms speed_values)

section \<open>Snapshots\<close>

lemma copyDevices_inv:
  assumes "distinct (map fst m)" and "list_all (\<lambda>(k, a). a < n) m" and "n \<le> length h"
    and "copyDevices cutoff m result h = (snap, h')"
  shows "take (length h) h' = h \<and> length h' = length h + length m
       \<and> (\<forall>k. k \<notin> fst ` set m \<longrightarrow> map_of snap k = map_of result k)
       \<and> (\<forall>(k, v) \<in> set m. \<exists>a. map_of snap k = Some a \<and> length h \<le> a \<and> a < length h'
                                  \<and> h' ! a = age cutoff (h ! v))"
  using assms
proof (induction m arbitrary: result h)
  case Nil
  then show ?case by simp
next
  case (Cons x m)
  obtain k v where x: "x = (k, v)" by (cases x)
  let ?d = "age cutoff (h ! v)"
  let ?h1 = "h @ [?d]"
  let ?r1 = "AList.update k (length h) result"
  have rec: "copyDevices cutoff m ?r1 ?h1 = (snap, h')"
    using Cons.prems(4) by (simp add: x age_def Let_def)
  have d: "distinct (map fst m)" and knew: "k \<notin> fst ` set m"
    using Cons.prems(1) by (auto simp: x)
  have b: "list_all (\<lambda>(k, a). a < n) m" and vn: "v < n"
    using Cons.prems(2) by (auto simp: x)
  have n1: "n \<le> length ?h1" using Cons.prems(3) by simp
  note IH = Cons.IH [OF d b n1 rec]
  have tk1: "take (length ?h1) h' = ?h1" using IH by blast
  have len: "length h' = length h + length (x # m)" using IH by simp
  have tk: "take (length h) h' = h"
  proof -
    have "take (length h) (take (length ?h1) h') = take (length h) ?h1"
      by (simp only: tk1)
    then show ?thesis by simp
  qed
  have at: "h' ! length h = ?d"
  proof -
    have "h' ! length h = (take (length ?h1) h') ! length h" by simp
    also have "\<dots> = ?h1 ! length h" by (simp only: tk1)
    finally show ?thesis by simp
  qed
  have other: "\<forall>k'. k' \<notin> fst ` set (x # m) \<longrightarrow> map_of snap k' = map_of result k'"
    using IH by (auto simp: x update_conv')
  have here: "map_of snap k = Some (length h)"
    using IH knew by (auto simp: update_conv')
  have rest: "\<exists>a. map_of snap k' = Some a \<and> length h \<le> a \<and> a < length h'
                  \<and> h' ! a = age cutoff (h ! v')" if "(k', v') \<in> set m" for k' v'
  proof -
    from IH that obtain a where a: "map_of snap k' = Some a" "length ?h1 \<le> a" "a < length h'"
        "h' ! a = age cutoff (?h1 ! v')"
      by blast
    have "v' < n" using b that by (auto simp: list_all_iff)
    then have "?h1 ! v' = h ! v'" using Cons.prems(3) by (simp add: nth_append)
    with a show ?thesis by auto
  qed
  have first: "\<exists>a. map_of snap k = Some a \<and> length h \<le> a \<and> a < length h'
                  \<and> h' ! a = age cutoff (h ! v)"
    using here at len by auto
  show ?case
    using tk len other first rest by (auto simp: x)
qed


lemma deref_take:
  assumes "list_all (\<lambda>(k, a). a < length h) m" and "take (length h) h' = h"
  shows "deref h' m = deref h m"
proof
  fix k
  show "deref h' m k = deref h m k"
  proof (cases "map_of m k")
    case None
    then show ?thesis by (simp add: deref_def)
  next
    case (Some a)
    then have "(k, a) \<in> set m" by (rule map_of_SomeD)
    with assms(1) have a: "a < length h" by (auto simp: list_all_iff)
    have "length (take (length h) h') = length h"
      by (simp only: assms(2))
    then have len: "length h \<le> length h'" by simp
    have "h' ! a = take (length h) h' ! a" using a by simp
    then have "h' ! a = h ! a" by (simp only: assms(2))
    with a len Some show ?thesis by (simp add: deref_def)
  qed
qed

lemma GetDevices_result:
  assumes wf: "wellformed h m" and get: "GetDevices now m h = (snap, h')"
  shows "deref h' m = deref h m"
    and "deref h' snap k = map_option (age (now - 5 * Minute)) (deref h m k)"
    and "map_of snap k = Some a \<Longrightarrow> length h \<le> a"
    and "take (length h) h' = h"
proof -
  have d: "distinct (map fst m)" and b: "list_all (\<lambda>(k, a). a < length h) m"
    using wf by (simp_all add: wellformed_def)
  have c: "copyDevices (now - 5 * Minute) m [] h = (snap, h')"
    using get by (simp add: GetDevices_def)
  note inv = copyDevices_inv [OF d b order_refl c]
  show "deref h' m = deref h m"
    using inv b by (intro deref_take) auto
  show "deref h' snap k = map_option (age (now - 5 * Minute)) (deref h m k)"
  proof (cases "map_of m k")
    case None
    then have "k \<notin> fst ` set m" by (simp add: map_of_eq_None_iff)
    with inv have "map_of snap k = None" by simp
    with None show ?thesis by (simp add: deref_def)
  next
    case (Some v)
    then have in_m: "(k, v) \<in> set m" by (rule map_of_SomeD)
    with b have v: "v < length h" by (auto simp: list_all_iff)
    from inv in_m obtain a' where "map_of snap k = Some a'" "a' < length h'"
        "h' ! a' = age (now - 5 * Minute) (h ! v)"
      by blast
    with Some v show ?thesis by (simp add: deref_def)
  qed
  show "length h \<le> a" if "map_of snap k = Some a"
  proof (cases "map_of m k")
    case None
    then have "k \<notin> fst ` set m" by (simp add: map_of_eq_None_iff)
    with inv have "map_of snap k = None" by simp
    with that show ?thesis by simp
  next
    case (Some v)
    then have "(k, v) \<in> set m" by (rule map_of_SomeD)
    with inv obtain a' where "map_of snap k = Some a'" "length h \<le> a'" by blast
    with that show ?thesis by simp
  qed
  show "take (length h) h' = h" using inv by blast
qed

lemma IsActive_step:
  "\<forall>ip d. Devices s ip = Some d \<longrightarrow> IsActive d \<Longrightarrow>
   Devices (step c s) ip = Some d \<Longrightarrow> IsActive d"
  by (cases c)
     (auto simp: UpdateDevice_def UpdateInterface_def UpdatePing_def StorePingData_def Let_def
           split: option.splits if_splits)

lemma IsActive_run:
  "Devices (run cs (NewStore t0)) ip = Some d \<Longrightarrow> IsActive d"
proof (induction cs arbitrary: ip d rule: rev_induct)
  case Nil
  then show ?case by (simp add: run_Nil NewStore_def)
next
  case (snoc c cs)
  have "\<forall>ip d. Devices (run cs (NewStore t0)) ip = Some d \<longrightarrow> IsActive d"
    using snoc.IH by blast
  then show ?case
    using snoc.prems by (auto simp: run_snoc intro: IsActive_step)
qed

text \<open>
  Claim C5, amended. For a Store built by any sequence of calls, a snapshot by GetDevices
  at time \<open>now\<close> holds exactly the stored devices, each with all its fields but IsActive,
  which is false if and only if now - LastSeen > 5 minutes (strictly: a device last seen
  exactly 5 minutes ago is still reported active). The structs the Store points to are
  the same after the snapshot.
\<close>

theorem GetDevices_inactive:
  assumes wf: "wellformed h m"
    and rep: "deref h m = Devices (run cs (NewStore t0))"
    and get: "GetDevices now m h = (snap, h')"
  shows "deref h' m = deref h m
       \<and> (case Devices (run cs (NewStore t0)) ip of
            None \<Rightarrow> deref h' snap ip = None
          | Some d \<Rightarrow>
              deref h' snap ip = Some (d\<lparr>IsActive := \<not> now - LastSeen d > 5 * Minute\<rparr>))"
proof -
  have same: "deref h' m = deref h m"
    by (rule GetDevices_result(1) [OF wf get])
  have snap: "deref h' snap ip
              = map_option (age (now - 5 * Minute)) (Devices (run cs (NewStore t0)) ip)"
    using GetDevices_result(2) [OF wf get, of ip] by (simp add: rep)
  show ?thesis
  proof (cases "Devices (run cs (NewStore t0)) ip")
    case None
    with same snap show ?thesis by simp
  next
    case (Some d)
    then have "IsActive d" by (rule IsActive_run)
    then have "age (now - 5 * Minute) d = d\<lparr>IsActive := \<not> now - LastSeen d > 5 * Minute\<rparr>"
      by (auto simp: age_def)
    with same snap Some show ?thesis by simp
  qed
qed


theorem GetDevices_inactive_witness:
  "wellformed
     [\<lparr>IP = ''10.0.0.7'', MAC = ''aa:bb:cc:dd:ee:01'', Hostname = ''printer'', LastSeen = 0,
       IsActive = True, Vendor = []\<rparr>]
     [(''10.0.0.7'', 0)]
   \<and> deref
     [\<lparr>IP = ''10.0.0.7'', MAC = ''aa:bb:cc:dd:ee:01'', Hostname = ''printer'', LastSeen = 0,
       IsActive = True, Vendor = []\<rparr>]
     [(''10.0.0.7'', 0)]
     = Devices (run [CallUpdateDevice ''10.0.0.7'' ''aa:bb:cc:dd:ee:01'' ''printer'' 0] (NewStore 0))
   \<and> GetDevices (5 * Minute + 1) [(''10.0.0.7'', 0)]
     [\<lparr>IP = ''10.0.0.7'', MAC = ''aa:bb:cc:dd:ee:01'', Hostname = ''printer'', LastSeen = 0,
       IsActive = True, Vendor = []\<rparr>]
     = ([(''10.0.0.7'', 1)],
        [\<lparr>IP = ''10.0.0.7'', MAC = ''aa:bb:cc:dd:ee:01'', Hostname = ''printer'', LastSeen = 0,
          IsActive = True, Vendor = []\<rparr>,
         \<lparr>IP = ''10.0.0.7'', MAC = ''aa:bb:cc:dd:ee:01'', Hostname = ''printer'', LastSeen = 0,
          IsActive = False, Vendor = []\<rparr>])
   \<and> deref
        [\<lparr>IP = ''10.0.0.7'', MAC = ''aa:bb:cc:dd:ee:01'', Hostname = ''printer'', LastSeen = 0,
          IsActive = True, Vendor = []\<rparr>,
         \<lparr>IP = ''10.0.0.7'', MAC = ''aa:bb:cc:dd:ee:01'', Hostname = ''printer'', LastSeen = 0,
          IsActive = False, Vendor = []\<rparr>]
        [(''10.0.0.7'', 1)] ''10.0.0.7''
     = Some \<lparr>IP = ''10.0.0.7'', MAC = ''aa:bb:cc:dd:ee:01'', Hostname = ''printer'', LastSeen = 0,
          IsActive = False, Vendor = []\<rparr>"
proof -
  let ?d = "\<lparr>IP = ''10.0.0.7'', MAC = ''aa:bb:cc:dd:ee:01'', Hostname = ''printer'',
             LastSeen = 0, IsActive = True, Vendor = []\<rparr>"
  have wf: "wellformed [?d] [(''10.0.0.7'', 0)]"
    by (simp add: wellformed_def)
  have dev: "Devices (run [CallUpdateDevice ''10.0.0.7'' ''aa:bb:cc:dd:ee:01'' ''printer'' 0]
               (NewStore 0)) = [''10.0.0.7'' \<mapsto> ?d]"
    by (simp add: run_def UpdateDevice_def NewStore_def)
  have rep: "deref [?d] [(''10.0.0.7'', 0)]
     = Devices (run [CallUpdateDevice ''10.0.0.7'' ''aa:bb:cc:dd:ee:01'' ''printer'' 0] (NewStore 0))"
    unfolding dev by (rule ext) (simp add: deref_def)
  have get: "GetDevices (5 * Minute + 1) [(''10.0.0.7'', 0)] [?d]
     = ([(''10.0.0.7'', 1)], [?d, ?d\<lparr>IsActive := False\<rparr>])"
    by (simp add: GetDevices_def Minute_def Second_def Let_def)
  show ?thesis
    using GetDevices_inactive [OF wf rep get, of "''10.0.0.7''"] wf rep get
    by (simp add: dev Minute_def Second_def)
qed

text \<open>
  A device stored at time 0 and a snapshot at exactly 5 minutes: now - LastSeen \<ge> 5
  minutes, and the copy in the snapshot is active.
\<close>

theorem GetDevices_boundary_counterexample:
  "Devices (UpdateDevice ''10.0.0.7'' ''aa:bb:cc:dd:ee:01'' ''printer'' 0 (NewStore 0)) ''10.0.0.7''
     = Some \<lparr>IP = ''10.0.0.7'', MAC = ''aa:bb:cc:dd:ee:01'', Hostname = ''printer'', LastSeen = 0,
          IsActive = True, Vendor = []\<rparr>
   \<and> GetDevices (5 * Minute) [(''10.0.0.7'', 0)]
     [\<lparr>IP = ''10.0.0.7'', MAC = ''aa:bb:cc:dd:ee:01'', Hostname = ''printer'', LastSeen = 0,
       IsActive = True, Vendor = []\<rparr>]
     = ([(''10.0.0.7'', 1)],
        [\<lparr>IP = ''10.0.0.7'', MAC = ''aa:bb:cc:dd:ee:01'', Hostname = ''printer'', LastSeen = 0,
          IsActive = True, Vendor = []\<rparr>,
         \<lparr>IP = ''10.0.0.7'', MAC = ''aa:bb:cc:dd:ee:01'', Hostname = ''printer'', LastSeen = 0,
          IsActive = True, Vendor = []\<rparr>])
   \<and> 5 * Minute - 0 \<ge> 5 * Minute"
  by (simp add: GetDevices_def UpdateDevice_def NewStore_def Minute_def Second_def Let_def)

text \<open>
  Claim C3. The snapshot of GetInterfaces (and of GetPings) holds the Store's own
  pointers: a write through an entry of the snapshot is a write to the stored struct.
  Here the stored interface \<open>eth0\<close> has SpeedRx 0; after SpeedRx := 99 through the
  snapshot the Store reads 99. Likewise TotalPings of a stored target.
\<close>

theorem GetInterfaces_shares_structs:
  "GetInterfaces [(''eth0'', 0)] = [(''eth0'', 0)]
   \<and> deref
        [\<lparr>Name = ''eth0'', BytesRx = 1000, BytesTx = 500, PacketsRx = 10, PacketsTx = 5,
          SpeedRx = 0, SpeedTx = 0, History = [], LastCheck = 0\<rparr>]
        [(''eth0'', 0)] ''eth0''
     = Some \<lparr>Name = ''eth0'', BytesRx = 1000, BytesTx = 500, PacketsRx = 10, PacketsTx = 5,
          SpeedRx = 0, SpeedTx = 0, History = [], LastCheck = 0\<rparr>
   \<and> deref
        (writeEntry (GetInterfaces [(''eth0'', 0)]) ''eth0'' (\<lambda>i. i\<lparr>SpeedRx := 99\<rparr>)
          [\<lparr>Name = ''eth0'', BytesRx = 1000, BytesTx = 500, PacketsRx = 10, PacketsTx = 5,
            SpeedRx = 0, SpeedTx = 0, History = [], LastCheck = 0\<rparr>])
        [(''eth0'', 0)] ''eth0''
     = Some \<lparr>Name = ''eth0'', BytesRx = 1000, BytesTx = 500, PacketsRx = 10, PacketsTx = 5,
          SpeedRx = 99, SpeedTx = 0, History = [], LastCheck = 0\<rparr>
   \<and> GetPings [(''1.1.1.1'', 0)] = [(''1.1.1.1'', 0)]
   \<and> deref
        (writeEntry (GetPings [(''1.1.1.1'', 0)]) ''1.1.1.1'' (\<lambda>p. p\<lparr>TotalPings := 0\<rparr>)
          [\<lparr>Host = ''1.1.1.1'', LastLatency = 7, AvgLatency = 7, PacketLoss = 0, TotalPings = 1,
            FailedPings = 0, ps_History = [], ps_LastUpdated = 0\<rparr>])
        [(''1.1.1.1'', 0)] ''1.1.1.1''
     = Some \<lparr>Host = ''1.1.1.1'', LastLatency = 7, AvgLatency = 7, PacketLoss = 0, TotalPings = 0,
            FailedPings = 0, ps_History = [], ps_LastUpdated = 0\<rparr>"
  by (simp add: GetInterfaces_def GetPings_def deref_def writeEntry_def)

text \<open>
  The snapshot of GetDevices is independent: after any write through one of its entries
  the Store reads the same devices as before the snapshot.
\<close>

theorem GetDevices_independent:
  assumes wf: "wellformed h m" and get: "GetDevices now m h = (snap, h')"
  shows "deref (writeEntry snap k f h') m = deref h m"
proof (cases "map_of snap k")
  case None
  then show ?thesis
    using GetDevices_result(1) [OF wf get] by (simp add: writeEntry_def)
next
  case (Some a)
  then have a: "length h \<le> a" by (rule GetDevices_result(3) [OF wf get])
  have b: "list_all (\<lambda>(k, a). a < length h) m"
    using wf by (simp add: wellformed_def)
  have "take (length h) (h'[a := f (h' ! a)]) = h"
    using a GetDevices_result(4) [OF wf get] by simp
  then have "deref (h'[a := f (h' ! a)]) m = deref h m"
    by (rule deref_take [OF b])
  then show ?thesis
    using Some GetDevices_result(1) [OF wf get] by (simp add: writeEntry_def)
qed

theorem GetDevices_independent_witness:
  "wellformed
     [\<lparr>IP = ''10.0.0.7'', MAC = ''aa:bb:cc:dd:ee:01'', Hostname = ''printer'', LastSeen = 0,
       IsActive = True, Vendor = []\<rparr>]
     [(''10.0.0.7'', 0)]
   \<and> GetDevices 9 [(''10.0.0.7'', 0)]
     [\<lparr>IP = ''10.0.0.7'', MAC = ''aa:bb:cc:dd:ee:01'', Hostname = ''printer'', LastSeen = 0,
       IsActive = True, Vendor = []\<rparr>]
     = ([(''10.0.0.7'', 1)],
        [\<lparr>IP = ''10.0.0.7'', MAC = ''aa:bb:cc:dd:ee:01'', Hostname = ''printer'', LastSeen = 0,
          IsActive = True, Vendor = []\<rparr>,
         \<lparr>IP = ''10.0.0.7'', MAC = ''aa:bb:cc:dd:ee:01'', Hostname = ''printer'', LastSeen = 0,
          IsActive = True, Vendor = []\<rparr>])
   \<and> deref
        (writeEntry [(''10.0.0.7'', 1)] ''10.0.0.7'' (\<lambda>d. d\<lparr>Hostname := ''changed''\<rparr>)
          [\<lparr>IP = ''10.0.0.7'', MAC = ''aa:bb:cc:dd:ee:01'', Hostname = ''printer'', LastSeen = 0,
            IsActive = True, Vendor = []\<rparr>,
           \<lparr>IP = ''10.0.0.7'', MAC = ''aa:bb:cc:dd:ee:01'', Hostname = ''printer'', LastSeen = 0,
            IsActive = True, Vendor = []\<rparr>])
        [(''10.0.0.7'', 0)] ''10.0.0.7''
     = Some \<lparr>IP = ''10.0.0.7'', MAC = ''aa:bb:cc:dd:ee:01'', Hostname = ''printer'', LastSeen = 0,
          IsActive = True, Vendor = []\<rparr>"
proof -
  let ?d = "\<lparr>IP = ''10.0.0.7'', MAC = ''aa:bb:cc:dd:ee:01'', Hostname = ''printer'',
             LastSeen = 0, IsActive = True, Vendor = []\<rparr>"
  have wf: "wellformed [?d] [(''10.0.0.7'', 0)]"
    by (simp add: wellformed_def)
  have get: "GetDevices 9 [(''10.0.0.7'', 0)] [?d] = ([(''10.0.0.7'', 1)], [?d, ?d])"
    by (simp add: GetDevices_def Minute_def Second_def Let_def)
  have "deref (writeEntry [(''10.0.0.7'', 1)] ''10.0.0.7'' (\<lambda>d. d\<lparr>Hostname := ''changed''\<rparr>)
          [?d, ?d]) [(''10.0.0.7'', 0)] ''10.0.0.7'' = deref [?d] [(''10.0.0.7'', 0)] ''10.0.0.7''"
    using GetDevices_independent [OF wf get] by simp
  then show ?thesis
    using wf get by (simp add: deref_def)
qed

section \<open>The reachability probe\<close>

lemma tcpFallback_result:
  "tcpFallback tcpPing host ports dials =
     (case find (connects tcpPing host) ports of
        None \<Rightarrow>
          (\<lparr>pr_Host = host, RTT = 0, pr_Success = False, Method = ''FAILED'',
            Error = Some ''both ICMP and TCP ping failed''\<rparr>,
           dials @ map (DialTCP host) ports)
      | Some port \<Rightarrow>
          (\<lparr>pr_Host = host, RTT = latency tcpPing host port, pr_Success = True,
            Method = ''TCP:'' @ port, Error = None\<rparr>,
           dials @ map (DialTCP host)
                  (takeWhile (\<lambda>q. \<not> connects tcpPing host q) ports @ [port])))"
  by (induction ports arbitrary: dials)
     (auto simp: connects_def latency_def split: sum.splits option.splits)

lemma last_appendBounded: "last (appendBounded h x) = x"
  by (simp add: appendBounded_def Let_def MaxHistoryPoints_def)

lemma StorePingData_records:
  "\<exists>p. PingResults (StorePingData host rtt success meth now s) host = Some p
       \<and> last (ps_History p) = \<lparr>pp_Timestamp = now, Latency = rtt, Success = success\<rparr>
       \<and> (success \<longrightarrow> LastLatency p = rtt)"
  by (cases "PingResults s host")
     (simp_all add: StorePingData_def recordExisting_def Let_def last_appendBounded
        split: prod.splits)

text \<open>
  When the ICMP attempt on a target fails, pingHost dials the ports 80, 443, 53, 22 in
  this order and stops at the first that connects: the result is then a success with the
  round-trip time of that dial and the method TCP:<port>, and collectPingData stores a
  successful sample with that round-trip time as the last point of the target's history.
  When no port connects the result is a failure with method FAILED. The method is never
  ICMP.
\<close>

theorem pingHost_tcp_fallback:
  assumes "pingICMP host = Inl err"
  shows "tcpPorts = [''80'', ''443'', ''53'', ''22'']
       \<and> Method (fst (pingHost pingICMP tcpPing host)) \<noteq> ''ICMP''
       \<and> (case find (connects tcpPing host) tcpPorts of
            None \<Rightarrow>
              \<not> pr_Success (fst (pingHost pingICMP tcpPing host))
              \<and> Method (fst (pingHost pingICMP tcpPing host)) = ''FAILED''
              \<and> snd (pingHost pingICMP tcpPing host)
                  = DialICMP host # map (DialTCP host) tcpPorts
          | Some port \<Rightarrow>
              pr_Success (fst (pingHost pingICMP tcpPing host))
              \<and> Method (fst (pingHost pingICMP tcpPing host)) = ''TCP:'' @ port
              \<and> tcpPing host port = Inr (RTT (fst (pingHost pingICMP tcpPing host)))
              \<and> snd (pingHost pingICMP tcpPing host)
                  = DialICMP host # map (DialTCP host)
                      (takeWhile (\<lambda>q. \<not> connects tcpPing host q) tcpPorts @ [port])
              \<and> (\<exists>p. PingResults (collectTarget pingICMP tcpPing host now s) host = Some p
                     \<and> last (ps_History p)
                         = \<lparr>pp_Timestamp = now,
                            Latency = RTT (fst (pingHost pingICMP tcpPing host)),
                            Success = True\<rparr>
                     \<and> LastLatency p = RTT (fst (pingHost pingICMP tcpPing host))))"
proof -
  have ph: "pingHost pingICMP tcpPing host = tcpFallback tcpPing host tcpPorts [DialICMP host]"
    by (simp add: pingHost_def assms)
  show ?thesis
  proof (cases "find (connects tcpPing host) tcpPorts")
    case None
    then show ?thesis
      by (simp add: ph tcpFallback_result) (simp add: tcpPorts_def)
  next
    case (Some port)
    then have "connects tcpPing host port"
      by (auto simp: find_Some_iff)
    then have rtt: "tcpPing host port = Inr (latency tcpPing host port)"
      by (simp add: connects_def latency_def split: sum.splits)
    have res: "fst (pingHost pingICMP tcpPing host)
        = \<lparr>pr_Host = host, RTT = latency tcpPing host port, pr_Success = True,
           Method = ''TCP:'' @ port, Error = None\<rparr>"
      by (simp add: ph tcpFallback_result Some)
    have ct: "collectTarget pingICMP tcpPing host now s
        = StorePingData host (latency tcpPing host port) True (''TCP:'' @ port) now s"
      by (simp add: collectTarget_def res)
    have rec: "\<exists>p. PingResults (collectTarget pingICMP tcpPing host now s) host = Some p
                     \<and> last (ps_History p)
                         = \<lparr>pp_Timestamp = now, Latency = latency tcpPing host port,
                            Success = True\<rparr>
                     \<and> LastLatency p = latency tcpPing host port"
      using StorePingData_records [of host "latency tcpPing host port" True "''TCP:'' @ port" now s]
      by (simp add: ct)
    have dials: "snd (pingHost pingICMP tcpPing host)
        = DialICMP host # map (DialTCP host)
            (takeWhile (\<lambda>q. \<not> connects tcpPing host q) tcpPorts @ [port])"
      by (simp add: ph tcpFallback_result Some)
    have ports: "tcpPorts = [''80'', ''443'', ''53'', ''22'']"
      by (simp add: tcpPorts_def)
    show ?thesis
      using rec rtt dials ports by (simp add: Some res)
  qed
qed

theorem pingHost_tcp_fallback_witness:
  "pingHost (\<lambda>h. Inl ''listen ICMP (may need root/admin)'')
        (\<lambda>h p. if p = ''443'' then Inr 7000000 else Inl ''TCP connect'') ''10.0.0.1''
     = (\<lparr>pr_Host = ''10.0.0.1'', RTT = 7000000, pr_Success = True, Method = ''TCP:443'',
         Error = None\<rparr>,
        [DialICMP ''10.0.0.1'', DialTCP ''10.0.0.1'' ''80'', DialTCP ''10.0.0.1'' ''443''])
   \<and> Method (fst (pingHost (\<lambda>h. Inl ''listen ICMP (may need root/admin)'')
        (\<lambda>h p. if p = ''443'' then Inr 7000000 else Inl ''TCP connect'') ''10.0.0.1'')) \<noteq> ''ICMP''
   \<and> (\<exists>p. PingResults (collectTarget (\<lambda>h. Inl ''listen ICMP (may need root/admin)'')
              (\<lambda>h p. if p = ''443'' then Inr 7000000 else Inl ''TCP connect'') ''10.0.0.1'' 5
              (NewStore 0)) ''10.0.0.1'' = Some p
         \<and> last (ps_History p) = \<lparr>pp_Timestamp = 5, Latency = 7000000, Success = True\<rparr>)"
  using pingHost_tcp_fallback [where pingICMP = "\<lambda>h. Inl ''listen ICMP (may need root/admin)''"
      and host = "''10.0.0.1''" and err = "''listen ICMP (may need root/admin)''"
      and tcpPing = "\<lambda>h p. if p = ''443'' then Inr 7000000 else Inl ''TCP connect''"
      and now = 5 and s = "NewStore 0"]
  by (simp add: pingHost_def tcpPorts_def connects_def collectTarget_def StorePingData_def
        NewStore_def)


section \<open>The subnet sweep\<close>

subsection \<open>incIP adds one\<close>

lemma byte_of_nat_eq_0: "(of_nat n :: byte) = 0 \<longleftrightarrow> 256 dvd n"
  using word_of_nat_eq_0_iff [where 'a = 8, of n] by simp

lemma div_carry: "(v + 1) div 256 = (if 256 dvd (v + 1) then v div 256 + 1 else v div (256::nat))"
  using div_Suc [of v 256] by (simp add: dvd_eq_mod_eq_0)

lemma lsb_Suc:
  "map (\<lambda>i. (of_nat (w div 256 ^ i) :: byte)) [0..<Suc k]
   = of_nat w # map (\<lambda>i. of_nat ((w div 256) div 256 ^ i)) [0..<k]"
proof -
  have "[0..<Suc k] = 0 # map Suc [0..<k]"
    by (simp add: upt_conv_Cons map_Suc_upt del: upt_Suc)
  then have "map (\<lambda>i. (of_nat (w div 256 ^ i) :: byte)) [0..<Suc k]
      = of_nat w # map (\<lambda>i. of_nat (w div 256 ^ Suc i)) [0..<k]"
    by (simp add: comp_def del: upt_Suc power_Suc)
  also have "\<dots> = of_nat w # map (\<lambda>i. of_nat ((w div 256) div 256 ^ i)) [0..<k]"
    by (simp add: div_mult2_eq)
  finally show ?thesis .
qed

lemma incLow_of_nat:
  "incLow ((of_nat v :: byte) # bs)
   = (if 256 dvd (v + 1) then of_nat (v + 1) # incLow bs else of_nat (v + 1) # bs)"
proof -
  have "(of_nat v :: byte) + 1 = of_nat (v + 1)" by simp
  then show ?thesis
    unfolding incLow.simps by (simp only: byte_of_nat_eq_0) simp
qed

lemma incLow_lsb:
  "incLow (map (\<lambda>i. of_nat (v div 256 ^ i)) [0..<k])
   = map (\<lambda>i. of_nat ((v + 1) div 256 ^ i)) [0..<k]"
proof (induction k arbitrary: v)
  case 0
  show ?case by simp
next
  case (Suc k)
  show ?case
  proof (cases "256 dvd (v + 1)")
    case True
    have "incLow (map (\<lambda>i. of_nat (v div 256 ^ i)) [0..<Suc k])
          = of_nat (v + 1) # incLow (map (\<lambda>i. of_nat ((v div 256) div 256 ^ i)) [0..<k])"
      using True by (simp only: lsb_Suc incLow_of_nat if_True)
    also have "\<dots> = of_nat (v + 1) # map (\<lambda>i. of_nat (((v + 1) div 256) div 256 ^ i)) [0..<k]"
      using True by (simp only: Suc.IH div_carry if_True)
    finally show ?thesis by (simp only: lsb_Suc)
  next
    case False
    have "incLow (map (\<lambda>i. of_nat (v div 256 ^ i)) [0..<Suc k])
          = of_nat (v + 1) # map (\<lambda>i. of_nat ((v div 256) div 256 ^ i)) [0..<k]"
      using False by (simp only: lsb_Suc incLow_of_nat if_False)
    also have "\<dots> = of_nat (v + 1) # map (\<lambda>i. of_nat (((v + 1) div 256) div 256 ^ i)) [0..<k]"
      using False by (simp only: div_carry if_False)
    finally show ?thesis by (simp only: lsb_Suc)
  qed
qed

lemma bytes4_lsb: "bytes4 v = rev (map (\<lambda>i. of_nat (v div 256 ^ i)) [0..<4])"
proof -
  have "[0..<4] = [0, 1, 2, 3::nat]"
    by (simp add: upt_rec)
  then show ?thesis by (simp add: bytes4_def)
qed

lemma incIP_bytes4: "incIP (bytes4 v) = bytes4 (v + 1)"
  by (simp only: incIP_def bytes4_lsb rev_rev_ident incLow_lsb)

subsection \<open>Bytes and numbers\<close>

lemma val_4: "val [a, b, c, d] = ((unat a * 256 + unat b) * 256 + unat c) * 256 + unat d"
  by (simp add: val_def)

lemma val_bound: "length ip = 4 \<Longrightarrow> val ip < 2 ^ 32"
proof -
  assume "length ip = 4"
  then obtain a b c d where ip: "ip = [a, b, c, d]"
    by (cases ip; cases "tl ip"; cases "tl (tl ip)"; cases "tl (tl (tl ip))") auto
  have "unat a < 256" "unat b < 256" "unat c < 256" "unat d < 256"
    using unsigned_less [of a, where 'a = nat] unsigned_less [of b, where 'a = nat]
      unsigned_less [of c, where 'a = nat] unsigned_less [of d, where 'a = nat]
    by simp_all
  then show ?thesis
    by (simp add: ip val_4)
qed

lemma val_bytes4: "val (bytes4 v) = v mod 2 ^ 32"
proof -
  have u: "unat (of_nat n :: byte) = n mod 256" for n
    by (simp add: unat_of_nat)
  have m1: "v mod 2 ^ 32 = 256 * (v div 256 mod 2 ^ 24) + v mod 256"
    using mod_mult2_eq [of v 256 "2 ^ 24"] by simp
  have d2: "v div 256 div 256 = v div 65536"
    using div_mult2_eq [of v 256 256] by simp
  have d3: "v div 65536 div 256 = v div 16777216"
    using div_mult2_eq [of v 65536 256] by simp
  have m2: "v div 256 mod 2 ^ 24 = 256 * (v div 2 ^ 16 mod 2 ^ 16) + v div 256 mod 256"
    using mod_mult2_eq [of "v div 256" 256 "2 ^ 16"] by (simp add: d2)
  have m3: "v div 2 ^ 16 mod 2 ^ 16 = 256 * (v div 2 ^ 24 mod 256) + v div 2 ^ 16 mod 256"
    using mod_mult2_eq [of "v div 2 ^ 16" 256 256] by (simp add: d3)
  show ?thesis
    unfolding bytes4_def val_4 u m1 m2 m3 by simp
qed

lemma length_bytes4: "length (bytes4 v) = 4"
  by (simp add: bytes4_def)

subsection \<open>The dotted decimal form and its suffixes\<close>

lemma digit_inj:
  "m < 10 \<Longrightarrow> k < 10 \<Longrightarrow> (''0123456789'' ! m = ''0123456789'' ! k) = (m = k)"
  by (rule nth_eq_iff_index_eq) simp_all

lemma digit_is:
  assumes "m < 10"
  shows "(''0123456789'' ! m = CHR ''0'') = (m = 0)"
    and "(''0123456789'' ! m = CHR ''2'') = (m = 2)"
    and "(''0123456789'' ! m = CHR ''5'') = (m = 5)"
  using digit_inj [OF assms, of 0] digit_inj [OF assms, of 2] digit_inj [OF assms, of 5]
  by simp_all

lemma digit_no_dot: "m < 10 \<Longrightarrow> ''0123456789'' ! m \<noteq> CHR ''.''"
proof -
  assume "m < 10"
  then have "''0123456789'' ! m \<in> set ''0123456789''"
    by (intro nth_mem) simp
  then show ?thesis by auto
qed

lemma uitoa_rev_unfold:
  "uitoa_rev n = (''0123456789'' ! (n mod 10)) # (if n < 10 then [] else uitoa_rev (n div 10))"
  by (rule uitoa_rev.simps)

lemma uitoa_rev_no_dot: "CHR ''.'' \<notin> set (uitoa_rev n)"
proof (induction n rule: less_induct)
  case (less n)
  have d: "''0123456789'' ! (n mod 10) \<noteq> CHR ''.''"
    by (rule digit_no_dot) simp
  show ?case
  proof (cases "n < 10")
    case True
    then show ?thesis using d by (subst uitoa_rev_unfold) auto
  next
    case False
    then have "n div 10 < n" by simp
    then have "CHR ''.'' \<notin> set (uitoa_rev (n div 10))" by (rule less.IH)
    then show ?thesis using d False by (subst uitoa_rev_unfold) auto
  qed
qed

lemma uitoa_rev_0: "uitoa_rev n = ''0'' \<longleftrightarrow> n = 0"
proof
  assume a: "uitoa_rev n = ''0''"
  have "uitoa_rev n = (''0123456789'' ! (n mod 10)) # (if n < 10 then [] else uitoa_rev (n div 10))"
    by (rule uitoa_rev_unfold)
  with a have "''0123456789'' ! (n mod 10) = CHR ''0''"
    and "(if n < 10 then [] else uitoa_rev (n div 10)) = []"
    by simp_all
  then have "n mod 10 = 0" and "n < 10"
    by (simp_all add: digit_is split: if_splits)
  then show "n = 0" by simp
next
  assume "n = 0"
  then show "uitoa_rev n = ''0''" by simp
qed

lemma uitoa_rev_Cons:
  "uitoa_rev n = c # cs \<longleftrightarrow>
   ''0123456789'' ! (n mod 10) = c \<and> (if n < 10 then cs = [] else uitoa_rev (n div 10) = cs)"
  by (subst uitoa_rev_unfold) auto

lemma uitoa_rev_255: "uitoa_rev n = ''552'' \<longleftrightarrow> n = 255"
proof
  assume "uitoa_rev n = ''552''"
  then have n0: "n mod 10 = 5" and n1: "\<not> n < 10" and r1: "uitoa_rev (n div 10) = ''52''"
    by (simp_all add: uitoa_rev_Cons [of n] digit_is split: if_splits)
  from r1 have n2: "n div 10 mod 10 = 5" and n3: "\<not> n div 10 < 10"
    and r2: "uitoa_rev (n div 10 div 10) = ''2''"
    by (simp_all add: uitoa_rev_Cons [of "n div 10"] digit_is split: if_splits)
  from r2 have n4: "n div 10 div 10 mod 10 = 2" and n5: "n div 10 div 10 < 10"
    by (simp_all add: uitoa_rev_Cons [of "n div 10 div 10"] digit_is split: if_splits)
  from n4 n5 have "n div 10 div 10 = 2" by simp
  with n2 have "n div 10 = 25"
    using div_mult_mod_eq [of "n div 10" 10] by simp
  with n0 show "n = 255"
    using div_mult_mod_eq [of n 10] by simp
next
  assume "n = 255"
  then show "uitoa_rev n = ''552''" by simp
qed

lemma HasSuffix_rev:
  "HasSuffix s suffix \<longleftrightarrow>
   length suffix \<le> length s \<and> take (length suffix) (rev s) = rev suffix"
proof (cases "length suffix \<le> length s")
  case True
  have "drop (length s - length suffix) s = suffix
        \<longleftrightarrow> rev (drop (length s - length suffix) s) = rev suffix"
    by simp
  also have "rev (drop (length s - length suffix) s) = take (length suffix) (rev s)"
    using True by (simp add: rev_drop)
  finally show ?thesis using True by (simp add: HasSuffix_def)
next
  case False
  then show ?thesis by (simp add: HasSuffix_def)
qed

lemma rev_IPString:
  "rev (IPString [a, b, c, d])
   = uitoa_rev (unat d) @ CHR ''.'' # rev (uitoa (unat a) @ ''.'' @ uitoa (unat b) @ ''.'' @ uitoa (unat c))"
  by (simp add: uitoa_def)

lemma take2_dot:
  assumes "r \<noteq> []" and "CHR ''.'' \<notin> set r"
  shows "take 2 (r @ CHR ''.'' # rest) = ''0.'' \<longleftrightarrow> r = ''0''"
proof (cases r)
  case Nil
  with assms show ?thesis by simp
next
  case (Cons x r')
  with assms show ?thesis by (cases r') auto
qed

lemma take4_dot:
  assumes "r \<noteq> []" and "CHR ''.'' \<notin> set r"
  shows "take 4 (r @ CHR ''.'' # rest) = ''552.'' \<longleftrightarrow> r = ''552''"
proof -
  consider "r = []" | x where "r = [x]" | x y where "r = [x, y]" | x y z where "r = [x, y, z]"
    | x y z w r' where "r = x # y # z # w # r'"
    by (cases r; cases "tl r"; cases "tl (tl r)"; cases "tl (tl (tl r))") auto
  then show ?thesis
    using assms by cases auto
qed

lemma length_IPString: "2 \<le> length (IPString [a, b, c, d])" "4 \<le> length (IPString [a, b, c, d])"
proof -
  have "uitoa n \<noteq> []" for n
    unfolding uitoa_def by (subst uitoa_rev_unfold) simp
  then have "1 \<le> length (uitoa n)" for n
    by (simp add: Suc_le_eq)
  from this [of "unat a"] this [of "unat b"] this [of "unat c"] this [of "unat d"]
  show "2 \<le> length (IPString [a, b, c, d])" "4 \<le> length (IPString [a, b, c, d])"
    by simp_all
qed

lemma HasSuffix_dot0: "HasSuffix (IPString [a, b, c, d]) ''.0'' \<longleftrightarrow> d = 0"
proof -
  have ne: "uitoa_rev (unat d) \<noteq> []"
    by (subst uitoa_rev_unfold) simp
  have "HasSuffix (IPString [a, b, c, d]) ''.0''
        \<longleftrightarrow> take 2 (rev (IPString [a, b, c, d])) = ''0.''"
    using length_IPString(1) [of a b c d] by (simp add: HasSuffix_rev eval_nat_numeral del: IPString.simps)
  also have "\<dots> \<longleftrightarrow> uitoa_rev (unat d) = ''0''"
    unfolding rev_IPString by (rule take2_dot [OF ne uitoa_rev_no_dot])
  also have "\<dots> \<longleftrightarrow> unat d = 0"
    by (rule uitoa_rev_0)
  also have "\<dots> \<longleftrightarrow> d = 0"
    by (rule unat_0_iff)
  finally show ?thesis .
qed

lemma HasSuffix_dot255: "HasSuffix (IPString [a, b, c, d]) ''.255'' \<longleftrightarrow> d = 255"
proof -
  have ne: "uitoa_rev (unat d) \<noteq> []"
    by (subst uitoa_rev_unfold) simp
  have "HasSuffix (IPString [a, b, c, d]) ''.255''
        \<longleftrightarrow> take 4 (rev (IPString [a, b, c, d])) = ''552.''"
    using length_IPString(2) [of a b c d] by (simp add: HasSuffix_rev eval_nat_numeral del: IPString.simps)
  also have "\<dots> \<longleftrightarrow> uitoa_rev (unat d) = ''552''"
    unfolding rev_IPString by (rule take4_dot [OF ne uitoa_rev_no_dot])
  also have "\<dots> \<longleftrightarrow> unat d = 255"
    by (rule uitoa_rev_255)
  also have "\<dots> \<longleftrightarrow> d = 255"
    using word_unat_eq_iff [of d 255] by simp
  finally show ?thesis .
qed

subsection \<open>The addresses a network contains\<close>

lemma val_Mask:
  assumes "val ip < 2 ^ 32"
  shows "val (Mask ip ones) = 2 ^ (32 - ones) * (val ip div 2 ^ (32 - ones))"
proof -
  have "val ip - val ip mod 2 ^ (32 - ones) \<le> val ip" by simp
  then have "val ip - val ip mod 2 ^ (32 - ones) < 2 ^ 32"
    using assms by (rule le_less_trans)
  then have "val (Mask ip ones) = val ip - val ip mod 2 ^ (32 - ones)"
    by (simp only: Mask_def val_bytes4 mod_less)
  then show ?thesis
    by (simp only: minus_mod_eq_mult_div)
qed

lemma pow_split: "ones \<le> 32 \<Longrightarrow> (2::nat) ^ 32 = 2 ^ (32 - ones) * 2 ^ ones"
  by (simp add: power_add [symmetric])

lemma edge_bytes4: "edge (bytes4 v) \<longleftrightarrow> v mod 256 = 0 \<or> v mod 256 = 255"
proof -
  have "(of_nat v :: byte) = 0 \<longleftrightarrow> v mod 256 = 0"
    using byte_of_nat_eq_0 [of v] by (simp add: dvd_eq_mod_eq_0)
  moreover have "(of_nat v :: byte) = 255 \<longleftrightarrow> v mod 256 = 255"
  proof -
    have "(of_nat v :: byte) = 255 \<longleftrightarrow> unat (of_nat v :: byte) = unat (255 :: byte)"
      by (rule word_unat_eq_iff)
    then show ?thesis by (simp add: unat_of_nat)
  qed
  ultimately show ?thesis
    by (simp only: edge_def bytes4_def HasSuffix_dot0 HasSuffix_dot255)
qed

lemma network_number:
  assumes "length addr = 4" and "ones \<le> 32"
  shows "\<exists>q. val (Mask addr ones) = 2 ^ (32 - ones) * q \<and> q < 2 ^ ones"
proof -
  have A: "val addr < 2 ^ 32" using assms(1) by (rule val_bound)
  then have "val addr < 2 ^ ones * 2 ^ (32 - ones)"
    using pow_split [OF assms(2)] by (simp add: mult.commute)
  then have "val addr div 2 ^ (32 - ones) < 2 ^ ones"
    by (simp add: less_mult_imp_div_less)
  then show ?thesis using val_Mask [OF A] by blast
qed

lemma Contains_bytes4:
  assumes b: "val (NetIP ipnet) = 2 ^ (32 - Ones ipnet) * q" and len: "length (NetIP ipnet) = 4"
  shows "Contains ipnet (bytes4 v) \<longleftrightarrow> (v mod 2 ^ 32) div 2 ^ (32 - Ones ipnet) = q"
proof -
  let ?sz = "(2::nat) ^ (32 - Ones ipnet)"
  have "val (NetIP ipnet) < 2 ^ 32" using len by (rule val_bound)
  then have "val (Mask (NetIP ipnet) (Ones ipnet)) = ?sz * (val (NetIP ipnet) div ?sz)"
    by (rule val_Mask)
  then have net: "val (Mask (NetIP ipnet) (Ones ipnet)) = ?sz * q"
    by (simp add: b)
  have "val (bytes4 v) < 2 ^ 32" by (simp add: val_bytes4)
  then have "val (Mask (bytes4 v) (Ones ipnet)) = ?sz * (val (bytes4 v) div ?sz)"
    by (rule val_Mask)
  then have ip: "val (Mask (bytes4 v) (Ones ipnet)) = ?sz * ((v mod 2 ^ 32) div ?sz)"
    by (simp only: val_bytes4)
  have "Contains ipnet (bytes4 v) \<longleftrightarrow> ?sz * q = ?sz * ((v mod 2 ^ 32) div ?sz)"
    by (simp only: Contains_def len length_bytes4 net ip simp_thms)
  then show ?thesis by auto
qed

subsection \<open>The loop\<close>

lemma hosts_0: "hosts v 0 = []"
  by (simp add: hosts_def)

lemma hosts_Suc:
  "hosts v (Suc k) = (if edge (bytes4 v) then hosts (Suc v) k else IPString (bytes4 v) # hosts (Suc v) k)"
proof -
  have "[v..<v + Suc k] = v # [Suc v..<Suc v + k]"
    by (simp add: upt_conv_Cons del: upt_Suc)
  then show ?thesis by (simp add: hosts_def del: upt_Suc)
qed

lemma sweep_range:
  assumes ones: "1 \<le> Ones ipnet" "Ones ipnet \<le> 32"
    and b: "val (NetIP ipnet) = 2 ^ (32 - Ones ipnet) * q" and q: "q < 2 ^ Ones ipnet"
    and len: "length (NetIP ipnet) = 4"
  shows "v + k = 2 ^ (32 - Ones ipnet) * Suc q \<Longrightarrow> 2 ^ (32 - Ones ipnet) * q \<le> v \<Longrightarrow>
         sweep ping ipnet (bytes4 v) active probed
         = Some (active @ filter ping (hosts v k), probed @ hosts v k)"
proof (induction k arbitrary: v active probed)
  case 0
  let ?sz = "(2::nat) ^ (32 - Ones ipnet)"
  have v: "v = ?sz * Suc q" using "0.prems"(1) by simp
  have "(v mod 2 ^ 32) div ?sz \<noteq> q"
  proof (cases "Suc q < 2 ^ Ones ipnet")
    case True
    then have "?sz * Suc q < ?sz * 2 ^ Ones ipnet"
      by (rule mult_less_mono2) simp
    then have "v < 2 ^ 32" using pow_split [OF ones(2)] v by simp
    then have "(v mod 2 ^ 32) div ?sz = v div ?sz" by simp
    also have "\<dots> = Suc q" by (simp add: v)
    finally show ?thesis by simp
  next
    case False
    with q have "Suc q = 2 ^ Ones ipnet" by simp
    then have "v = 2 ^ 32" using pow_split [OF ones(2)] v by simp
    then have z: "(v mod 2 ^ 32) div ?sz = 0" by simp
    have "(2::nat) ^ 1 \<le> 2 ^ Ones ipnet"
      using ones(1) by (intro power_increasing) simp_all
    then have "2 \<le> Suc q" using \<open>Suc q = 2 ^ Ones ipnet\<close> by simp
    then show ?thesis using z by simp
  qed
  then have "\<not> Contains ipnet (bytes4 v)"
    by (simp only: Contains_bytes4 [OF b len] not_False_eq_True)
  then show ?case
    by (subst sweep.simps) (simp add: hosts_0)
next
  case (Suc k)
  let ?sz = "(2::nat) ^ (32 - Ones ipnet)"
  have lt: "v < ?sz * Suc q" using Suc.prems(1) by simp
  have "Suc q \<le> 2 ^ Ones ipnet" using q by simp
  then have "?sz * Suc q \<le> ?sz * 2 ^ Ones ipnet" by (rule mult_le_mono2)
  then have "?sz * Suc q \<le> 2 ^ 32" using pow_split [OF ones(2)] by simp
  with lt have v32: "v < 2 ^ 32" by simp
  have "v div ?sz = q"
    using Suc.prems(2) lt by (intro div_nat_eqI) (simp_all add: mult.commute)
  then have "(v mod 2 ^ 32) div ?sz = q" using v32 by simp
  then have c: "Contains ipnet (bytes4 v)"
    by (simp only: Contains_bytes4 [OF b len])
  have next1: "Suc v + k = ?sz * Suc q" using Suc.prems(1) by simp
  have next2: "?sz * q \<le> Suc v" using Suc.prems(2) by simp
  note IH = Suc.IH [OF next1 next2]
  have inc: "incIP (bytes4 v) = bytes4 (Suc v)"
    using incIP_bytes4 [of v] by simp
  show ?case
  proof (cases "edge (bytes4 v)")
    case True
    then have "sweep ping ipnet (bytes4 v) active probed
               = sweep ping ipnet (bytes4 (Suc v)) active probed"
      using c by (subst sweep.simps) (simp add: edge_def inc)
    then show ?thesis by (simp only: IH hosts_Suc True if_True)
  next
    case False
    then have "sweep ping ipnet (bytes4 v) active probed
               = (if ping (IPString (bytes4 v))
                  then sweep ping ipnet (bytes4 (Suc v)) (active @ [IPString (bytes4 v)])
                         (probed @ [IPString (bytes4 v)])
                  else sweep ping ipnet (bytes4 (Suc v)) active (probed @ [IPString (bytes4 v)]))"
      using c by (subst sweep.simps) (simp add: edge_def inc)
    then show ?thesis by (simp add: IH hosts_Suc False)
  qed
qed

subsection \<open>The result of pingSweep\<close>

lemma ParseCIDR_Some:
  "ParseCIDR addr ones = Some ipnet \<longleftrightarrow>
   length addr = 4 \<and> ones \<le> 32 \<and> ipnet = \<lparr>NetIP = Mask addr ones, Ones = ones\<rparr>"
  by (auto simp: ParseCIDR_def)

lemma length_Mask: "length (Mask ip ones) = 4"
  by (simp add: Mask_def length_bytes4)

lemma low_byte: "(of_nat (x * 256 + unat y) :: byte) = y"
proof -
  have "unat y < 256"
    using unsigned_less [of y, where 'a = nat] by simp
  then have "(x * 256 + unat y) mod 256 = unat y" by simp
  moreover have "unat (of_nat n :: byte) = n mod 256" for n
    by (simp add: unat_of_nat)
  ultimately have "unat (of_nat (x * 256 + unat y) :: byte) = unat y"
    by (simp only:)
  then show ?thesis by (simp only: word_unat_eq_iff)
qed

lemma bytes4_val:
  assumes "length ip = 4"
  shows "bytes4 (val ip) = ip"
proof -
  from assms obtain a b c d where ip: "ip = [a, b, c, d]"
    by (cases ip; cases "tl ip"; cases "tl (tl ip)"; cases "tl (tl (tl ip))") auto
  define w2 where "w2 = unat a * 256 + unat b"
  define w1 where "w1 = w2 * 256 + unat c"
  have v: "val ip = w1 * 256 + unat d"
    by (simp add: ip val_4 w1_def w2_def)
  have lt: "unat a < 256" "unat b < 256" "unat c < 256" "unat d < 256"
    using unsigned_less [of a, where 'a = nat] unsigned_less [of b, where 'a = nat]
      unsigned_less [of c, where 'a = nat] unsigned_less [of d, where 'a = nat]
    by simp_all
  have d1: "val ip div 256 = w1" using lt(4) by (simp add: v)
  have d2: "w1 div 256 = w2" using lt(3) by (simp add: w1_def)
  have d3: "w2 div 256 = unat a" using lt(2) by (simp add: w2_def)
  have e8: "val ip div 2 ^ 8 = w1" using d1 by simp
  have e16: "val ip div 2 ^ 16 = w2"
    using div_mult2_eq [of "val ip" 256 256] d1 d2 by simp
  have e24: "val ip div 2 ^ 24 = unat a"
    using div_mult2_eq [of "val ip" 65536 256] e16 d3 by simp
  have b0: "(of_nat (val ip) :: byte) = d" unfolding v by (rule low_byte)
  have b1: "(of_nat w1 :: byte) = c" unfolding w1_def by (rule low_byte)
  have b2: "(of_nat w2 :: byte) = b" unfolding w2_def by (rule low_byte)
  show ?thesis
    unfolding bytes4_def e8 e16 e24 b0 b1 b2 by (simp add: ip)
qed

lemma edge_last:
  assumes "length ip = 4"
  shows "edge ip \<longleftrightarrow> last ip = 0 \<or> last ip = 255"
proof -
  from assms obtain a b c d where ip: "ip = [a, b, c, d]"
    by (cases ip; cases "tl ip"; cases "tl (tl ip)"; cases "tl (tl (tl ip))") auto
  show ?thesis
    unfolding ip edge_def by (simp only: HasSuffix_dot0 HasSuffix_dot255) simp
qed

lemma filter_edge:
  "filter (\<lambda>ip. \<not> edge ip) (map bytes4 vs)
   = filter (\<lambda>ip. last ip \<noteq> 0 \<and> last ip \<noteq> 255) (map bytes4 vs)"
  by (rule filter_cong) (auto simp: edge_last length_bytes4)

lemma pingSweep_result:
  assumes parse: "ParseCIDR addr ones = Some ipnet" and ones: "1 \<le> ones"
  shows "pingSweep ping addr ones
         = Some (filter ping (map IPString (filter (\<lambda>ip. last ip \<noteq> 0 \<and> last ip \<noteq> 255)
                                              (subnetAddrs ipnet))),
                 map IPString (filter (\<lambda>ip. last ip \<noteq> 0 \<and> last ip \<noteq> 255)
                                (subnetAddrs ipnet)))"
proof -
  from parse have len: "length addr = 4" and le: "ones \<le> 32"
    and ipnet: "ipnet = \<lparr>NetIP = Mask addr ones, Ones = ones\<rparr>"
    by (simp_all add: ParseCIDR_Some)
  have O: "Ones ipnet = ones" and N: "NetIP ipnet = Mask addr ones"
    by (simp_all add: ipnet)
  from network_number [OF len le] obtain q
    where b: "val (Mask addr ones) = 2 ^ (32 - ones) * q" and q: "q < 2 ^ ones"
    by blast
  have b': "val (NetIP ipnet) = 2 ^ (32 - Ones ipnet) * q" by (simp add: O N b)
  have l4: "length (NetIP ipnet) = 4" by (simp add: N length_Mask)
  have start: "Mask (NetIP ipnet) (Ones ipnet) = bytes4 (2 ^ (32 - Ones ipnet) * q)"
    by (simp add: Mask_def b')
  have "sweep ping ipnet (bytes4 (2 ^ (32 - Ones ipnet) * q)) [] []
        = Some ([] @ filter ping (hosts (2 ^ (32 - Ones ipnet) * q) (2 ^ (32 - Ones ipnet))),
                [] @ hosts (2 ^ (32 - Ones ipnet) * q) (2 ^ (32 - Ones ipnet)))"
    using ones le q by (intro sweep_range [OF _ _ b' _ l4]) (simp_all add: O)
  moreover have "hosts (2 ^ (32 - Ones ipnet) * q) (2 ^ (32 - Ones ipnet))
        = map IPString (filter (\<lambda>ip. last ip \<noteq> 0 \<and> last ip \<noteq> 255) (subnetAddrs ipnet))"
    by (simp only: hosts_def subnetAddrs_def b' filter_edge)
  ultimately show ?thesis
    by (simp add: pingSweep_def parse start)
qed

lemma subnetAddrs_Contains:
  assumes parse: "ParseCIDR addr ones = Some ipnet" and ip: "length ip = 4"
  shows "ip \<in> set (subnetAddrs ipnet) \<longleftrightarrow> Contains ipnet ip"
proof -
  from parse have len: "length addr = 4" and le: "ones \<le> 32"
    and ipnet: "ipnet = \<lparr>NetIP = Mask addr ones, Ones = ones\<rparr>"
    by (simp_all add: ParseCIDR_Some)
  have O: "Ones ipnet = ones" and N: "NetIP ipnet = Mask addr ones"
    by (simp_all add: ipnet)
  from network_number [OF len le] obtain q
    where b: "val (Mask addr ones) = 2 ^ (32 - ones) * q" and q: "q < 2 ^ ones"
    by blast
  let ?sz = "(2::nat) ^ (32 - Ones ipnet)"
  have b': "val (NetIP ipnet) = ?sz * q" by (simp add: O N b)
  have l4: "length (NetIP ipnet) = 4" by (simp add: N length_Mask)
  have v32: "val ip < 2 ^ 32" using ip by (rule val_bound)
  have "Contains ipnet (bytes4 (val ip)) \<longleftrightarrow> (val ip mod 2 ^ 32) div ?sz = q"
    by (rule Contains_bytes4 [OF b' l4])
  then have c: "Contains ipnet ip \<longleftrightarrow> val ip div ?sz = q"
    using v32 by (simp add: bytes4_val [OF ip])
  have r: "val ip div ?sz = q \<longleftrightarrow> ?sz * q \<le> val ip \<and> val ip < ?sz * q + ?sz"
  proof
    assume "val ip div ?sz = q"
    then have "?sz * q = ?sz * (val ip div ?sz)" by simp
    also have "\<dots> = val ip - val ip mod ?sz" by (simp only: minus_mod_eq_mult_div)
    finally have e: "?sz * q = val ip - val ip mod ?sz" .
    have "val ip mod ?sz < ?sz" by simp
    moreover have "val ip mod ?sz \<le> val ip" by simp
    ultimately show "?sz * q \<le> val ip \<and> val ip < ?sz * q + ?sz"
      using e by linarith
  next
    assume "?sz * q \<le> val ip \<and> val ip < ?sz * q + ?sz"
    then show "val ip div ?sz = q"
      by (intro div_nat_eqI) (simp_all add: mult.commute)
  qed
  have "ip \<in> set (subnetAddrs ipnet) \<longleftrightarrow> ?sz * q \<le> val ip \<and> val ip < ?sz * q + ?sz"
  proof
    assume "ip \<in> set (subnetAddrs ipnet)"
    then obtain v where v: "?sz * q \<le> v" "v < ?sz * q + ?sz" and e: "ip = bytes4 v"
      by (auto simp: subnetAddrs_def b')
    have "Suc q \<le> 2 ^ Ones ipnet" using q by (simp add: O)
    then have "?sz * Suc q \<le> ?sz * 2 ^ Ones ipnet" by (rule mult_le_mono2)
    then have "?sz * q + ?sz \<le> 2 ^ 32" using pow_split [of "Ones ipnet"] le by (simp add: O)
    with v have "v < 2 ^ 32" by simp
    then have "val ip = v" by (simp add: e val_bytes4)
    with v show "?sz * q \<le> val ip \<and> val ip < ?sz * q + ?sz" by simp
  next
    assume "?sz * q \<le> val ip \<and> val ip < ?sz * q + ?sz"
    then have "val ip \<in> set [?sz * q..<?sz * q + ?sz]" by simp
    then have "bytes4 (val ip) \<in> set (subnetAddrs ipnet)"
      unfolding subnetAddrs_def b' by (simp only: set_map) (rule imageI)
    then show "ip \<in> set (subnetAddrs ipnet)" by (simp only: bytes4_val [OF ip])
  qed
  with c r show ?thesis by simp
qed

subsection \<open>Subnets of prefix length 24\<close>

lemma last_bytes4:
  "last (bytes4 v) \<noteq> 0 \<and> last (bytes4 v) \<noteq> 255 \<longleftrightarrow> v mod 256 \<noteq> 0 \<and> v mod 256 \<noteq> 255"
proof -
  have "(last (bytes4 v) = 0 \<or> last (bytes4 v) = 255) = (v mod 256 = 0 \<or> v mod 256 = 255)"
    by (simp only: edge_bytes4 [symmetric] edge_last [OF length_bytes4])
  then show ?thesis
    by (simp only: de_Morgan_disj [symmetric])
qed

lemma upt_256: "[b..<b + 256] = b # [Suc b..<b + 255] @ [b + 255]"
proof -
  have "b + 256 = Suc (b + 255)" by simp
  then have "[b..<b + 256] = [b..<b + 255] @ [b + 255]"
    by (simp only: upt_Suc) simp
  moreover have "[b..<b + 255] = b # [Suc b..<b + 255]"
    by (rule upt_conv_Cons) simp
  ultimately show ?thesis by simp
qed

lemma slash24:
  assumes parse: "ParseCIDR addr 24 = Some ipnet"
  shows "filter (\<lambda>ip. last ip \<noteq> 0 \<and> last ip \<noteq> 255) (subnetAddrs ipnet)
         = butlast (tl (subnetAddrs ipnet))"
proof -
  from parse have len: "length addr = 4"
    and ipnet: "ipnet = \<lparr>NetIP = Mask addr 24, Ones = 24\<rparr>"
    by (simp_all add: ParseCIDR_Some)
  from network_number [OF len, of 24] obtain q where b: "val (Mask addr 24) = 256 * q"
    by auto
  have addrs: "subnetAddrs ipnet = map bytes4 [256 * q..<256 * q + 256]"
    by (simp add: subnetAddrs_def ipnet b)
  have split: "[256 * q..<256 * q + 256]
      = 256 * q # [Suc (256 * q)..<256 * q + 255] @ [256 * q + 255]"
    by (rule upt_256)
  have first: "(256 * q) mod 256 = 0" by simp
  have final: "(256 * q + 255) mod 256 = 255" by simp
  have mid: "v mod 256 \<noteq> 0 \<and> v mod 256 \<noteq> 255"
    if "v \<in> set [Suc (256 * q)..<256 * q + 255]" for v
  proof -
    from that obtain r where v: "v = 256 * q + r" and r: "1 \<le> r" "r < 255"
      by (auto simp: le_iff_add)
    have "v mod 256 = r" using r by (simp add: v)
    with r show ?thesis by simp
  qed
  have "filter (\<lambda>ip. last ip \<noteq> 0 \<and> last ip \<noteq> 255) (subnetAddrs ipnet)
        = map bytes4 (filter (\<lambda>v. v mod 256 \<noteq> 0 \<and> v mod 256 \<noteq> 255) [256 * q..<256 * q + 256])"
    by (simp only: addrs filter_map comp_def last_bytes4)
  also have "filter (\<lambda>v. v mod 256 \<noteq> 0 \<and> v mod 256 \<noteq> 255) [256 * q..<256 * q + 256]
        = filter (\<lambda>v. v mod 256 \<noteq> 0 \<and> v mod 256 \<noteq> 255) [Suc (256 * q)..<256 * q + 255]"
    by (simp only: split filter.simps filter_append first final) simp
  also have "\<dots> = [Suc (256 * q)..<256 * q + 255]"
    using mid by (intro filter_True) blast
  also have "map bytes4 [Suc (256 * q)..<256 * q + 255] = butlast (tl (subnetAddrs ipnet))"
    by (simp only: addrs split list.map map_append list.sel butlast_snoc flip: append_Cons)
       (simp add: butlast_append)
  finally show ?thesis .
qed

subsection \<open>The addresses pingSweep probes\<close>

lemma hd_subnetAddrs:
  assumes parse: "ParseCIDR addr ones = Some ipnet"
  shows "subnetAddrs ipnet \<noteq> [] \<and> hd (subnetAddrs ipnet) = NetIP ipnet"
proof -
  from parse have l4: "length (NetIP ipnet) = 4"
    by (auto simp: ParseCIDR_Some length_Mask)
  have "[val (NetIP ipnet)..<val (NetIP ipnet) + 2 ^ (32 - Ones ipnet)]
        = val (NetIP ipnet) # [Suc (val (NetIP ipnet))..<val (NetIP ipnet) + 2 ^ (32 - Ones ipnet)]"
    by (rule upt_conv_Cons) simp
  then show ?thesis
    by (simp add: subnetAddrs_def bytes4_val [OF l4])
qed

text \<open>
  Claim C9, amended. For an IPv4 subnet of prefix length 1 to 32, pingSweep returns, and
  the addresses it pings are exactly the addresses of the subnet whose last byte is
  neither 0 nor 255, in ascending order; the responders it returns are those of them
  that answer. The addresses of the subnet are those the network contains, the network
  address first. For a /24 subnet the pinged addresses are all the addresses of the
  subnet but the first and the last: every host address, and neither the network nor
  the broadcast address.
\<close>

theorem pingSweep_probes:
  assumes "ParseCIDR addr ones = Some ipnet" and "1 \<le> ones"
  shows "pingSweep ping addr ones
         = Some (filter ping (map IPString (filter (\<lambda>ip. last ip \<noteq> 0 \<and> last ip \<noteq> 255)
                                              (subnetAddrs ipnet))),
                 map IPString (filter (\<lambda>ip. last ip \<noteq> 0 \<and> last ip \<noteq> 255)
                                (subnetAddrs ipnet)))
       \<and> (\<forall>ip. length ip = 4 \<longrightarrow> (ip \<in> set (subnetAddrs ipnet) \<longleftrightarrow> Contains ipnet ip))
       \<and> subnetAddrs ipnet \<noteq> [] \<and> hd (subnetAddrs ipnet) = NetIP ipnet
       \<and> (ones = 24 \<longrightarrow>
            filter (\<lambda>ip. last ip \<noteq> 0 \<and> last ip \<noteq> 255) (subnetAddrs ipnet)
            = butlast (tl (subnetAddrs ipnet)))"
  using pingSweep_result [OF assms] subnetAddrs_Contains [OF assms(1)]
    hd_subnetAddrs [OF assms(1)] slash24 [of addr ipnet] assms(1)
  by blast

lemma net_250_29:
  "ParseCIDR [10, 0, 0, 250] 29 = Some \<lparr>NetIP = [10, 0, 0, 248], Ones = 29\<rparr>"
  by (simp add: ParseCIDR_def Mask_def val_def bytes4_def)

lemma addrs_250_29:
  "subnetAddrs \<lparr>NetIP = [10, 0, 0, 248], Ones = 29\<rparr>
   = [[10, 0, 0, 248], [10, 0, 0, 249], [10, 0, 0, 250], [10, 0, 0, 251],
      [10, 0, 0, 252], [10, 0, 0, 253], [10, 0, 0, 254], [10, 0, 0, 255]]"
  by (simp add: subnetAddrs_def val_def bytes4_def)

theorem pingSweep_probes_witness:
  "ParseCIDR [10, 0, 0, 250] 29 = Some \<lparr>NetIP = [10, 0, 0, 248], Ones = 29\<rparr>
   \<and> pingSweep (\<lambda>ip. ip = ''10.0.0.250'') [10, 0, 0, 250] 29
     = Some ([''10.0.0.250''],
             [''10.0.0.248'', ''10.0.0.249'', ''10.0.0.250'', ''10.0.0.251'', ''10.0.0.252'',
              ''10.0.0.253'', ''10.0.0.254''])"
  using pingSweep_probes [OF net_250_29, of "\<lambda>ip. ip = ''10.0.0.250''"]
  by (simp add: net_250_29 addrs_250_29 uitoa_def)

lemma net_5_30:
  "ParseCIDR [10, 0, 0, 5] 30 = Some \<lparr>NetIP = [10, 0, 0, 4], Ones = 30\<rparr>"
  by (simp add: ParseCIDR_def Mask_def val_def bytes4_def)

lemma addrs_5_30:
  "subnetAddrs \<lparr>NetIP = [10, 0, 0, 4], Ones = 30\<rparr>
   = [[10, 0, 0, 4], [10, 0, 0, 5], [10, 0, 0, 6], [10, 0, 0, 7]]"
  by (simp add: subnetAddrs_def val_def bytes4_def)

text \<open>
  The subnet 10.0.0.5/30 has the addresses 10.0.0.4 to 10.0.0.7; the sweep pings all
  four, the network address 10.0.0.4 and the broadcast address 10.0.0.7 among them.
\<close>

theorem pingSweep_network_broadcast_counterexample:
  "ParseCIDR [10, 0, 0, 5] 30 = Some \<lparr>NetIP = [10, 0, 0, 4], Ones = 30\<rparr>
   \<and> subnetAddrs \<lparr>NetIP = [10, 0, 0, 4], Ones = 30\<rparr>
     = [[10, 0, 0, 4], [10, 0, 0, 5], [10, 0, 0, 6], [10, 0, 0, 7]]
   \<and> pingSweep (\<lambda>ip. False) [10, 0, 0, 5] 30
     = Some ([], [''10.0.0.4'', ''10.0.0.5'', ''10.0.0.6'', ''10.0.0.7''])"
  using pingSweep_result [OF net_5_30, of "\<lambda>ip. False"]
  by (simp add: net_5_30 addrs_5_30 uitoa_def)

subsection \<open>The subnet of all addresses\<close>

text \<open>With the prefix length 0 every address is in the network and the sweep never returns.\<close>

lemma length_incLow: "length (incLow bs) = length bs"
  by (induction bs) auto

lemma length_incIP: "length (incIP ip) = length ip"
  by (simp add: incIP_def length_incLow)

lemma Contains_slash0:
  assumes "Ones ipnet = 0" and "length (NetIP ipnet) = 4" and "length ip = 4"
  shows "Contains ipnet ip"
proof -
  have a: "val (NetIP ipnet) < 2 ^ 32" using assms(2) by (rule val_bound)
  have b: "val ip < 2 ^ 32" using assms(3) by (rule val_bound)
  show ?thesis
    using a b by (simp add: Contains_def assms val_Mask)
qed

lemma sweep_slash0:
  assumes "sweep ping ipnet ip active probed = Some y"
  shows "\<not> (Ones ipnet = 0 \<and> length (NetIP ipnet) = 4 \<and> length ip = 4)"
proof (rule sweep.raw_induct
    [where P = "\<lambda>ping ipnet ip active probed y.
                  \<not> (Ones ipnet = 0 \<and> length (NetIP ipnet) = 4 \<and> length ip = 4)",
     OF _ assms])
  fix sweep' :: "(string \<Rightarrow> bool) \<Rightarrow> IPNet \<Rightarrow> byte list \<Rightarrow> string list \<Rightarrow> string list
                 \<Rightarrow> (string list \<times> string list) option"
    and ping ipnet ip active probed y
  assume IH: "\<And>ping ipnet ip active probed y.
      sweep' ping ipnet ip active probed = Some y \<Longrightarrow>
      \<not> (Ones ipnet = 0 \<and> length (NetIP ipnet) = 4 \<and> length ip = 4)"
    and body: "(if Contains ipnet ip
      then if HasSuffix (IPString ip) ''.0'' \<or> HasSuffix (IPString ip) ''.255''
           then sweep' ping ipnet (incIP ip) active probed
           else if ping (IPString ip)
                then sweep' ping ipnet (incIP ip) (active @ [IPString ip]) (probed @ [IPString ip])
                else sweep' ping ipnet (incIP ip) active (probed @ [IPString ip])
      else Some (active, probed)) = Some y"
  show "\<not> (Ones ipnet = 0 \<and> length (NetIP ipnet) = 4 \<and> length ip = 4)"
  proof
    assume a: "Ones ipnet = 0 \<and> length (NetIP ipnet) = 4 \<and> length ip = 4"
    then have c: "Contains ipnet ip" by (simp add: Contains_slash0)
    have l: "length (incIP ip) = 4" using a by (simp add: length_incIP)
    from body c obtain active' probed'
      where "sweep' ping ipnet (incIP ip) active' probed' = Some y"
      by (auto split: if_splits)
    then have "\<not> (Ones ipnet = 0 \<and> length (NetIP ipnet) = 4 \<and> length (incIP ip) = 4)"
      by (rule IH)
    with a l show False by simp
  qed
qed

lemma pingSweep_slash0:
  assumes "length addr = 4"
  shows "pingSweep ping addr 0 = None"
proof (cases "pingSweep ping addr 0")
  case None
  then show ?thesis .
next
  case (Some y)
  have p: "ParseCIDR addr 0 = Some \<lparr>NetIP = Mask addr 0, Ones = 0\<rparr>"
    using assms by (simp add: ParseCIDR_def)
  from Some have "sweep ping \<lparr>NetIP = Mask addr 0, Ones = 0\<rparr> (Mask (Mask addr 0) 0) [] [] = Some y"
    by (simp add: pingSweep_def p)
  then have "\<not> (Ones \<lparr>NetIP = Mask addr 0, Ones = 0\<rparr> = 0
      \<and> length (NetIP \<lparr>NetIP = Mask addr 0, Ones = 0\<rparr>) = 4 \<and> length (Mask (Mask addr 0) 0) = 4)"
    by (rule sweep_slash0)
  then show ?thesis by (simp add: length_Mask)
qed

theorem pingSweep_slash0_witness:
  "length [10, 0, 0, 5 :: byte] = 4 \<and> pingSweep (\<lambda>ip. False) [10, 0, 0, 5] 0 = None"
  using pingSweep_slash0 [of "[10, 0, 0, 5]" "\<lambda>ip. False"] by simp

end
